theory Spec2Isabelle
  imports Complex_Main "HOL-Library.Multiset"
begin

section \<open>Track points and the distance metric\<close>

text \<open>
  The development embeds the track-map construction of \<^verbatim>\<open>experimental.py\<close> and
  \<^verbatim>\<open>testing.py\<close>, the position/time lookups of \<^verbatim>\<open>TrackMap\<close>, the
  \<^verbatim>\<open>StartFinishCondition\<close> and the idle barrier of \<^verbatim>\<open>AdvancedSyncSolver\<close>.

  Coordinates, dates and time spans are Python/pandas numbers; they are idealised as
  \<^typ>\<open>real\<close> (no rounding, no NaN). Exceptions are values of \<open>error\<close>; a function that
  can raise returns \<open>error + 'a\<close> with \<open>Inl\<close> for the exception.
\<close>

datatype error =
  IndexError | ValueError | ZeroDivisionError | AttributeError | KeyError | TypeError

text \<open>
  \<^verbatim>\<open>class TrackPoint\<close> (\<^verbatim>\<open>class Point\<close> in \<^verbatim>\<open>testing.py\<close>, without the date):
  attributes \<^verbatim>\<open>x\<close>, \<^verbatim>\<open>y\<close>, \<^verbatim>\<open>date\<close>. The fields are called \<open>px\<close>, \<open>py\<close>,
  \<open>pdate\<close> so that \<open>x\<close> and \<open>y\<close> stay free for variables.
\<close>

record TrackPoint =
  px :: real
  py :: real
  pdate :: "real option"

definition mk_point :: "real \<Rightarrow> real \<Rightarrow> TrackPoint" where
  "mk_point a b = \<lparr>px = a, py = b, pdate = None\<rparr>"

text \<open>\<^verbatim>\<open>get_sqr_dist(self, other)\<close>: \<^verbatim>\<open>abs(other.x - self.x) + abs(other.y - self.y)\<close>.\<close>

definition get_sqr_dist :: "TrackPoint \<Rightarrow> TrackPoint \<Rightarrow> real" where
  "get_sqr_dist self other = \<bar>px other - px self\<bar> + \<bar>py other - py self\<bar>"

section \<open>Position data and the track map\<close>

text \<open>A row of a driver's position table (columns \<^verbatim>\<open>Date\<close>, \<^verbatim>\<open>X\<close>, \<^verbatim>\<open>Y\<close>).\<close>

record PosRow =
  Date :: real
  X :: real
  Y :: real

text \<open>Drivers are identified by their numbers.\<close>

type_synonym driver = nat

text \<open>
  The attributes of \<^verbatim>\<open>TrackMap\<close> that the algorithms read and write.
  \<^verbatim>\<open>_raw_pos_data\<close> exists in \<^verbatim>\<open>experimental.py\<close> only; the sorting and the
  integration never touch it.
\<close>

record TrackMap =
  raw_pos_data :: "driver \<rightharpoonup> PosRow list"
  unsorted_points :: "TrackPoint list"
  sorted_points :: "TrackPoint list"
  excluded_points :: "TrackPoint list"
  distances :: "real list"
  distances_normalized :: "real list"
  next_point :: "TrackPoint option"

text \<open>
  The state after \<^verbatim>\<open>__init__\<close>: the unsorted points, everything else empty. The unique
  on-track points are taken as given; their extraction from the position tables is not
  part of the development.
\<close>

definition new_TrackMap :: "(driver \<rightharpoonup> PosRow list) \<Rightarrow> TrackPoint list \<Rightarrow> TrackMap" where
  "new_TrackMap raw pts =
     \<lparr>raw_pos_data = raw, unsorted_points = pts, sorted_points = [], excluded_points = [],
      distances = [], distances_normalized = [], next_point = None\<rparr>"

section \<open>Greedy sequencing\<close>

text \<open>\<^verbatim>\<open>lst.index(v)\<close>: the first position of \<open>v\<close> (the callers only look up a member).\<close>

fun list_index :: "'a list \<Rightarrow> 'a \<Rightarrow> nat" where
  "list_index [] v = 0"
| "list_index (a # as) v = (if a = v then 0 else Suc (list_index as v))"

text \<open>\<^verbatim>\<open>lst.pop(i)\<close> leaves the list without its \<open>i\<close>-th element.\<close>

definition pop_rest :: "nat \<Rightarrow> 'a list \<Rightarrow> 'a list" where
  "pop_rest i xs = take i xs @ drop (Suc i) xs"

text \<open>
  One pass of the body of \<^verbatim>\<open>while self.unsorted_points\<close> in \<^verbatim>\<open>_sort_points\<close>
  (the same text in both files; the visualisation hook does nothing at frequency 0).
  \<open>np\<close> is \<^verbatim>\<open>self._next_point\<close>.
\<close>

definition sort_step :: "TrackPoint \<Rightarrow> TrackMap \<Rightarrow> TrackPoint \<times> TrackMap" where
  "sort_step np tm =
     (let dists = map (get_sqr_dist np) (unsorted_points tm);
          min_dst = min_list dists;
          index_min = list_index dists min_dst;
          tm1 = (if min_dst > 200
                 then tm\<lparr>excluded_points := excluded_points tm @ [np]\<rparr>
                 else tm\<lparr>sorted_points := sorted_points tm @ [np]\<rparr>)
      in (unsorted_points tm ! index_min,
          tm1\<lparr>unsorted_points := pop_rest index_min (unsorted_points tm)\<rparr>))"

lemma list_index_less: "v \<in> set xs \<Longrightarrow> list_index xs v < length xs"
  by (induction xs) auto

lemma list_index_nth: "v \<in> set xs \<Longrightarrow> xs ! list_index xs v = v"
  by (induction xs) auto

lemma list_index_first: "i < list_index xs v \<Longrightarrow> xs ! i \<noteq> v"
proof (induction xs arbitrary: i)
  case Nil
  then show ?case by simp
next
  case (Cons a as)
  then show ?case by (cases i) (auto split: if_splits)
qed

lemma min_list_in: "xs \<noteq> [] \<Longrightarrow> min_list xs \<in> set (xs :: real list)"
  using Min_in [of "set xs"] by (simp add: min_list_Min)

lemma min_list_le: "v \<in> set xs \<Longrightarrow> min_list xs \<le> (v :: real)"
  using Min_le [of "set xs" v] by (cases "xs = []") (simp_all add: min_list_Min)

lemma min_index_less: "xs \<noteq> [] \<Longrightarrow> list_index xs (min_list xs) < length (xs :: real list)"
  by (simp add: list_index_less min_list_in)

lemma length_pop_rest: "i < length xs \<Longrightarrow> length (pop_rest i xs) = length xs - 1"
  by (simp add: pop_rest_def)

lemma sort_step_unsorted:
  "unsorted_points (snd (sort_step np tm)) =
     pop_rest (list_index (map (get_sqr_dist np) (unsorted_points tm))
                 (min_list (map (get_sqr_dist np) (unsorted_points tm))))
              (unsorted_points tm)"
  by (simp add: sort_step_def Let_def)

lemma sort_step_shrinks:
  assumes "unsorted_points tm \<noteq> []"
  shows "length (unsorted_points (snd (sort_step np tm))) < length (unsorted_points tm)"
proof -
  let ?ds = "map (get_sqr_dist np) (unsorted_points tm)"
  have "?ds \<noteq> []" using assms by simp
  then have "list_index ?ds (min_list ?ds) < length ?ds" by (rule min_index_less)
  then have "list_index ?ds (min_list ?ds) < length (unsorted_points tm)" by simp
  then show ?thesis
    using assms by (simp add: sort_step_unsorted length_pop_rest)
qed

text \<open>The \<^verbatim>\<open>while\<close> loop: it runs as long as unsorted points remain.\<close>

function sort_loop :: "TrackPoint \<Rightarrow> TrackMap \<Rightarrow> TrackPoint \<times> TrackMap" where
  "sort_loop np tm =
     (if unsorted_points tm = [] then (np, tm)
      else sort_loop (fst (sort_step np tm)) (snd (sort_step np tm)))"
  by pat_completeness auto
termination
  by (relation "measure (\<lambda>(np, tm). length (unsorted_points tm))")
     (auto simp: sort_step_shrinks case_prod_beta)

declare sort_loop.simps [simp del]

text \<open>
  \<^verbatim>\<open>_sort_points\<close> of \<^verbatim>\<open>experimental.py\<close>: \<^verbatim>\<open>pop(0)\<close> raises on an empty list; after
  the loop the last point is compared with \<^verbatim>\<open>self.sorted_points[-1]\<close>, which raises
  when nothing was sorted.
\<close>

definition sort_points :: "TrackMap \<Rightarrow> error + TrackMap" where
  "sort_points tm =
     (case unsorted_points tm of
        [] \<Rightarrow> Inl IndexError
      | p # rest \<Rightarrow>
          (let r = sort_loop p (tm\<lparr>unsorted_points := rest\<rparr>);
               np = fst r;
               tm1 = (snd r)\<lparr>next_point := Some np\<rparr>
           in if sorted_points tm1 = [] then Inl IndexError
              else if get_sqr_dist np (last (sorted_points tm1)) \<le> 200
              then Inr (tm1\<lparr>sorted_points := sorted_points tm1 @ [np]\<rparr>)
              else Inr tm1))"

text \<open>\<^verbatim>\<open>_sort_points\<close> of \<^verbatim>\<open>testing.py\<close>: the method ends with the loop.\<close>

definition sort_points_testing :: "TrackMap \<Rightarrow> error + TrackMap" where
  "sort_points_testing tm =
     (case unsorted_points tm of
        [] \<Rightarrow> Inl IndexError
      | p # rest \<Rightarrow>
          (let r = sort_loop p (tm\<lparr>unsorted_points := rest\<rparr>)
           in Inr ((snd r)\<lparr>next_point := Some (fst r)\<rparr>)))"

section \<open>Arc-length integration\<close>

text \<open>
  The \<^verbatim>\<open>for i in range(1, len(self.sorted_points))\<close> loop of
  \<^verbatim>\<open>_integrate_distance\<close>: the first argument is the list from index \<open>i - 1\<close> on, the
  second \<^verbatim>\<open>distance_covered\<close>, the third \<^verbatim>\<open>self.distances\<close>.
\<close>

fun integrate_loop :: "TrackPoint list \<Rightarrow> real \<Rightarrow> real list \<Rightarrow> real list" where
  "integrate_loop (a # b # ps) distance_covered ds =
     (let segment_length = sqrt (get_sqr_dist a b);
          covered = distance_covered + segment_length
      in integrate_loop (b # ps) covered (ds @ [covered]))"
| "integrate_loop ps distance_covered ds = ds"

text \<open>
  \<^verbatim>\<open>_integrate_distance\<close> (identical in both files). The division
  \<^verbatim>\<open>dist / self.distances[-1]\<close> raises at the first element when the last distance is 0.
\<close>

definition integrate_distance :: "TrackMap \<Rightarrow> error + TrackMap" where
  "integrate_distance tm =
     (let ds = integrate_loop (sorted_points tm) 0 (distances tm @ [0])
      in if last ds = 0 then Inl ZeroDivisionError
         else Inr (tm\<lparr>distances := ds,
                      distances_normalized :=
                        distances_normalized tm @ map (\<lambda>dist. dist / last ds) ds\<rparr>))"

text \<open>The data frame built by \<^verbatim>\<open>generate_track\<close>: four columns of one length.\<close>

record Track =
  track_X :: "real list"
  track_Y :: "real list"
  track_Distance :: "real list"
  track_Normalized :: "real list"

definition make_frame :: "TrackMap \<Rightarrow> error + Track" where
  "make_frame tm =
     (let xvals = map px (sorted_points tm);
          yvals = map py (sorted_points tm)
      in if length (distances tm) = length xvals \<and>
            length (distances_normalized tm) = length xvals
         then Inr \<lparr>track_X = xvals, track_Y = yvals, track_Distance = distances tm,
                   track_Normalized = distances_normalized tm\<rparr>
         else Inl ValueError)"

definition generate_track :: "TrackMap \<Rightarrow> error + Track" where
  "generate_track tm =
     (case sort_points tm of
        Inl e \<Rightarrow> Inl e
      | Inr tm1 \<Rightarrow>
          (case integrate_distance tm1 of
             Inl e \<Rightarrow> Inl e
           | Inr tm2 \<Rightarrow> make_frame tm2))"

definition generate_track_testing :: "TrackMap \<Rightarrow> error + Track" where
  "generate_track_testing tm =
     (case sort_points_testing tm of
        Inl e \<Rightarrow> Inl e
      | Inr tm1 \<Rightarrow>
          (case integrate_distance tm1 of
             Inl e \<Rightarrow> Inl e
           | Inr tm2 \<Rightarrow> make_frame tm2))"

section \<open>Gapless tours and reference inputs\<close>

text \<open>
  A tour is gapless when, at every pass of the loop that starts from \<open>np\<close> and the
  unsorted points of \<open>tm\<close>, the minimum distance from the current point to the
  remaining points is at most the threshold 200. The predicate follows the loop's own
  choice of the next point.
\<close>

function gapless :: "TrackPoint \<Rightarrow> TrackMap \<Rightarrow> bool" where
  "gapless np tm =
     (if unsorted_points tm = [] then True
      else min_list (map (get_sqr_dist np) (unsorted_points tm)) \<le> 200 \<and>
           gapless (fst (sort_step np tm)) (snd (sort_step np tm)))"
  by pat_completeness auto
termination
  by (relation "measure (\<lambda>(np, tm). length (unsorted_points tm))")
     (auto simp: sort_step_shrinks case_prod_beta)

declare gapless.simps [simp del]

text \<open>Two points are far apart when their distance exceeds the outlier threshold.\<close>

abbreviation far :: "TrackPoint \<Rightarrow> TrackPoint \<Rightarrow> bool" where
  "far p q \<equiv> 200 < get_sqr_dist p q"

text \<open>The unit square of the specification's scenario.\<close>

definition unit_square :: "TrackPoint list" where
  "unit_square = [mk_point 0 0, mk_point 1 0, mk_point 1 1, mk_point 0 1]"

section \<open>Position and time lookups\<close>

text \<open>
  \<^verbatim>\<open>get_closest_point\<close>: \<^verbatim>\<open>min\<close> of an empty list raises \<^verbatim>\<open>ValueError\<close>.
\<close>

definition get_closest_point :: "TrackMap \<Rightarrow> TrackPoint \<Rightarrow> error + TrackPoint" where
  "get_closest_point tm point =
     (let dists = map (\<lambda>track_point. get_sqr_dist track_point point) (sorted_points tm)
      in if dists = [] then Inl ValueError
         else Inr (sorted_points tm ! list_index dists (min_list dists)))"

text \<open>
  Attribute access on a \<^verbatim>\<open>TrackPoint\<close>: the instance has the attributes \<^verbatim>\<open>x\<close>,
  \<^verbatim>\<open>y\<close> and \<^verbatim>\<open>date\<close>; any other name raises \<^verbatim>\<open>AttributeError\<close>.
\<close>

datatype attr_value = Coord real | DateOf "real option"

definition TrackPoint_getattr :: "TrackPoint \<Rightarrow> string \<Rightarrow> error + attr_value" where
  "TrackPoint_getattr p name =
     (if name = ''x'' then Inr (Coord (px p))
      else if name = ''y'' then Inr (Coord (py p))
      else if name = ''date'' then Inr (DateOf (pdate p))
      else Inl AttributeError)"

text \<open>
  \<^verbatim>\<open>get_time_from_pos\<close>. The statement \<^verbatim>\<open>is_x = drv_pos.X = closest_track_pnt.X\<close>
  is a chained assignment; its right-hand side is evaluated first and reads the attribute
  \<^verbatim>\<open>X\<close> of a \<^verbatim>\<open>TrackPoint\<close>. Past the two attribute reads (which no
  \<^verbatim>\<open>TrackPoint\<close> survives) the columns \<^verbatim>\<open>X\<close> and \<^verbatim>\<open>Y\<close> of the driver's table would
  be overwritten and the table indexed by a scalar, which is a \<^verbatim>\<open>KeyError\<close>.
\<close>

definition get_time_from_pos ::
  "TrackMap \<Rightarrow> driver \<Rightarrow> real \<Rightarrow> real \<Rightarrow> real \<Rightarrow> real \<Rightarrow> error + real option" where
  "get_time_from_pos tm drv x y time_range_start time_range_end =
     (case raw_pos_data tm drv of
        None \<Rightarrow> Inl KeyError
      | Some drv_pos \<Rightarrow>
          (case get_closest_point tm (mk_point x y) of
             Inl e \<Rightarrow> Inl e
           | Inr closest_track_pnt \<Rightarrow>
               (case TrackPoint_getattr closest_track_pnt ''X'' of
                  Inl e \<Rightarrow> Inl e
                | Inr is_x \<Rightarrow>
                    (case TrackPoint_getattr closest_track_pnt ''Y'' of
                       Inl e \<Rightarrow> Inl e
                     | Inr is_y \<Rightarrow> Inl KeyError))))"

text \<open>
  \<^verbatim>\<open>Series.argsort\<close>: the positions of the values in non-decreasing order (here with
  ties in order of position).
\<close>

definition argsort :: "real list \<Rightarrow> nat list" where
  "argsort ks = sort_key (\<lambda>i. ks ! i) [0..<length ks]"

text \<open>
  \<^verbatim>\<open>interpolate_pos_from_time\<close>. \<^verbatim>\<open>closest.iloc[1]\<close> raises \<^verbatim>\<open>IndexError\<close> when
  the driver has fewer than two samples; a zero \<^verbatim>\<open>delta_t\<close> is a division by zero.
\<close>

definition interpolate_pos_from_time :: "TrackMap \<Rightarrow> driver \<Rightarrow> real \<Rightarrow> error + TrackPoint" where
  "interpolate_pos_from_time tm drv query_date =
     (case raw_pos_data tm drv of
        None \<Rightarrow> Inl KeyError
      | Some drv_pos \<Rightarrow>
          (let closest = map (\<lambda>i. drv_pos ! i)
                           (take 2 (argsort (map (\<lambda>r. \<bar>Date r - query_date\<bar>) drv_pos)))
           in if length closest < 2 then Inl IndexError
              else
                (let delta_t = Date (closest ! 1) - Date (closest ! 0);
                     delta_x = X (closest ! 1) - X (closest ! 0);
                     delta_y = Y (closest ! 1) - Y (closest ! 0);
                     interp_delta_t = query_date - Date (closest ! 0)
                 in if delta_t = 0 then Inl ZeroDivisionError
                    else Inr (mk_point (X (closest ! 0) + delta_x * interp_delta_t / delta_t)
                                       (Y (closest ! 0) + delta_y * interp_delta_t / delta_t)))))"

text \<open>Three samples of a driver, two seconds apart.\<close>

definition three_samples :: "PosRow list" where
  "three_samples =
     [\<lparr>Date = 0, X = 0, Y = 0\<rparr>, \<lparr>Date = 2, X = 10, Y = 4\<rparr>, \<lparr>Date = 4, X = 20, Y = 4\<rparr>]"

section \<open>The start/finish condition\<close>

text \<open>
  A row of the lap table. \<^verbatim>\<open>NumberOfLaps\<close>, \<^verbatim>\<open>PitInTime\<close> and \<^verbatim>\<open>PitOutTime\<close> can
  be null. Times are in seconds.
\<close>

record Lap =
  Driver :: driver
  NumberOfLaps :: "nat option"
  Time :: real
  LastLapTime :: real
  PitInTime :: "real option"
  PitOutTime :: "real option"

text \<open>The dictionary handed to a condition by \<^verbatim>\<open>set_data\<close>.\<close>

record SharedData =
  data_track :: TrackMap
  data_laps :: "Lap list"
  data_pos :: "driver \<rightharpoonup> PosRow list"
  data_session_start_date :: real

text \<open>\<^verbatim>\<open>min_index(_iterable)\<close>: \<^verbatim>\<open>_iterable.index(min(_iterable))\<close>.\<close>

definition min_index :: "real list \<Rightarrow> nat" where
  "min_index ds = list_index ds (min_list ds)"

text \<open>\<^verbatim>\<open>NumberOfLaps.max()\<close> over a driver's laps; nulls are skipped.\<close>

fun max_laps :: "Lap list \<Rightarrow> nat option" where
  "max_laps [] = None"
| "max_laps (lap # laps) =
     (case (NumberOfLaps lap, max_laps laps) of
        (None, m) \<Rightarrow> m
      | (Some n, None) \<Rightarrow> Some n
      | (Some n, Some m) \<Rightarrow> Some (max n m))"

text \<open>The test that sends a lap to \<^verbatim>\<open>continue\<close>.\<close>

definition lap_skipped :: "nat option \<Rightarrow> Lap \<Rightarrow> bool" where
  "lap_skipped drv_last_lap lap =
     (NumberOfLaps lap = None \<or> NumberOfLaps lap = Some 1 \<or> NumberOfLaps lap = drv_last_lap
      \<or> PitInTime lap \<noteq> None \<or> PitOutTime lap \<noteq> None)"

text \<open>The point built from a position row: \<^verbatim>\<open>TrackPoint(row.X, row.Y, row.Date)\<close>.\<close>

definition row_point :: "PosRow \<Rightarrow> TrackPoint" where
  "row_point row = \<lparr>px = X row, py = Y row, pdate = Some (Date row)\<rparr>"

text \<open>
  The \<^verbatim>\<open>for _, row in pos_range.iterrows()\<close> loop; the accumulator is
  \<open>(pos_distances, neg_distances, pos_points, neg_points)\<close>.
\<close>

fun partition_loop ::
  "TrackPoint \<Rightarrow> PosRow list \<Rightarrow> real list \<times> real list \<times> TrackPoint list \<times> TrackPoint list
     \<Rightarrow> real list \<times> real list \<times> TrackPoint list \<times> TrackPoint list" where
  "partition_loop test_point [] acc = acc"
| "partition_loop test_point (row # rows) (pos_distances, neg_distances, pos_points, neg_points) =
     (let pnt = row_point row;
          dist = get_sqr_dist test_point pnt
      in if px pnt < px test_point
         then partition_loop test_point rows
                (pos_distances @ [dist], neg_distances, pos_points @ [pnt], neg_points)
         else partition_loop test_point rows
                (pos_distances, neg_distances @ [dist], pos_points, neg_points @ [pnt]))"

text \<open>The rows of the window: \<^verbatim>\<open>query("@t_start < Date < @t_end")\<close>, ten seconds each way.\<close>

definition pos_window :: "SharedData \<Rightarrow> Lap \<Rightarrow> PosRow list \<Rightarrow> PosRow list" where
  "pos_window data lap rows =
     (let approx_time = data_session_start_date data + Time lap;
          delta_t = 10;
          t_start = approx_time - delta_t;
          t_end = approx_time + delta_t
      in filter (\<lambda>r. t_start < Date r \<and> Date r < t_end) rows)"

text \<open>
  The \<^verbatim>\<open>else\<close> branch of the lap loop for one lap: \<open>Inr None\<close> is the
  \<^verbatim>\<open>continue\<close> on an empty side, \<open>Inr (Some p)\<close> the point appended to the results.
  Two branches are written out although the loop above never reaches them: a point without
  a date cannot take part in the date arithmetic (every point of the window has one), and
  a zero divisor \<^verbatim>\<open>p_b.x - p_a.x\<close> is an error (\<^verbatim>\<open>p_a.x < test_point.x <= p_b.x\<close>
  excludes it).
\<close>

definition lap_start_point ::
  "SharedData \<Rightarrow> driver \<Rightarrow> TrackPoint \<Rightarrow> Lap \<Rightarrow> error + TrackPoint option" where
  "lap_start_point data drv test_point lap =
     (case data_pos data drv of
        None \<Rightarrow> Inl KeyError
      | Some rows \<Rightarrow>
          (case partition_loop test_point (pos_window data lap rows) ([], [], [], []) of
             (pos_distances, neg_distances, pos_points, neg_points) \<Rightarrow>
               if neg_distances = [] \<or> pos_distances = [] then Inr None
               else
                 (let p_a = pos_points ! min_index pos_distances;
                      p_b = neg_points ! min_index neg_distances
                  in case (pdate p_a, pdate p_b) of
                       (Some date_a, Some date_b) \<Rightarrow>
                         if px p_b - px p_a = 0 then Inl ZeroDivisionError
                         else
                           (let test_date = date_a + (date_b - date_a) * (px test_point - px p_a)
                                                       / (px p_b - px p_a);
                                last_lap_start = test_date - LastLapTime lap
                            in case interpolate_pos_from_time (data_track data) drv last_lap_start of
                                 Inl e \<Rightarrow> Inl e
                               | Inr start_pnt \<Rightarrow> Inr (Some start_pnt))
                     | _ \<Rightarrow> Inl TypeError)))"

text \<open>The loop over the driver's laps, with the result lists as accumulator.\<close>

fun for_driver_loop ::
  "SharedData \<Rightarrow> driver \<Rightarrow> TrackPoint \<Rightarrow> nat option \<Rightarrow> Lap list \<Rightarrow> real list \<times> real list
     \<Rightarrow> error + real list \<times> real list" where
  "for_driver_loop data drv test_point drv_last_lap [] (res_x, res_y) = Inr (res_x, res_y)"
| "for_driver_loop data drv test_point drv_last_lap (lap # laps) (res_x, res_y) =
     (if lap_skipped drv_last_lap lap
      then for_driver_loop data drv test_point drv_last_lap laps (res_x, res_y)
      else
        (case lap_start_point data drv test_point lap of
           Inl e \<Rightarrow> Inl e
         | Inr None \<Rightarrow> for_driver_loop data drv test_point drv_last_lap laps (res_x, res_y)
         | Inr (Some p) \<Rightarrow>
             for_driver_loop data drv test_point drv_last_lap laps
               (res_x @ [px p], res_y @ [py p])))"

text \<open>\<^verbatim>\<open>StartFinishCondition.for_driver\<close>.\<close>

definition for_driver ::
  "SharedData \<Rightarrow> driver \<Rightarrow> TrackPoint \<Rightarrow> error + real list \<times> real list" where
  "for_driver data drv test_point =
     (let drv_laps = filter (\<lambda>lap. Driver lap = drv) (data_laps data);
          drv_last_lap = max_laps drv_laps
      in for_driver_loop data drv test_point drv_last_lap drv_laps ([], []))"

text \<open>
  The two sides of the window in the specification's words: the samples with
  \<open>x < candidate.x\<close> and those with \<open>x \<ge> candidate.x\<close>.
\<close>

definition window_before :: "TrackPoint \<Rightarrow> PosRow list \<Rightarrow> PosRow list" where
  "window_before candidate rows = filter (\<lambda>r. X r < px candidate) rows"

definition window_after :: "TrackPoint \<Rightarrow> PosRow list \<Rightarrow> PosRow list" where
  "window_after candidate rows = filter (\<lambda>r. px candidate \<le> X r) rows"

text \<open>A driver with one sample inside the window of the usable lap, on the near side.\<close>

definition first_lap :: Lap where
  "first_lap = \<lparr>Driver = 1, NumberOfLaps = Some 1, Time = 10, LastLapTime = 10,
          PitInTime = None, PitOutTime = None\<rparr>"

definition usable_lap :: Lap where
  "usable_lap = \<lparr>Driver = 1, NumberOfLaps = Some 2, Time = 100, LastLapTime = 90,
          PitInTime = None, PitOutTime = None\<rparr>"

definition final_lap :: Lap where
  "final_lap = \<lparr>Driver = 1, NumberOfLaps = Some 3, Time = 190, LastLapTime = 90,
          PitInTime = None, PitOutTime = None\<rparr>"

definition one_sided_rows :: "PosRow list" where
  "one_sided_rows = [\<lparr>Date = 95, X = 0, Y = 0\<rparr>, \<lparr>Date = 200, X = 50, Y = 0\<rparr>]"

definition one_sided_data :: SharedData where
  "one_sided_data =
     \<lparr>data_track = new_TrackMap [1 \<mapsto> three_samples] [],
      data_laps = [first_lap, usable_lap, final_lap],
      data_pos = [1 \<mapsto> one_sided_rows],
      data_session_start_date = 0\<rparr>"

section \<open>The worker pool and the idle barrier\<close>

text \<open>
  An entry of the task queue: a triple \<^verbatim>\<open>(c_index, driver, test_point)\<close> or the string
  \<^verbatim>\<open>'idle'\<close>.
\<close>

datatype task = Work nat driver TrackPoint | IdleCmd

text \<open>
  The result dictionaries of a worker and of the coordinator: condition index to the pair
  of lists \<^verbatim>\<open>[res_x, res_y]\<close> that a condition returns.
\<close>

type_synonym results = "nat \<rightharpoonup> real list \<times> real list"

text \<open>
  The registered conditions: \<^verbatim>\<open>self.conditions[c_index].for_driver(drv, point)\<close>, which
  returns its two lists or raises.
\<close>

type_synonym conditions = "nat \<Rightarrow> driver \<Rightarrow> TrackPoint \<Rightarrow> error + real list \<times> real list"

text \<open>\<^verbatim>\<open>SolverSubprocess.add_result\<close>.\<close>

definition add_result :: "results \<Rightarrow> nat \<Rightarrow> real list \<times> real list \<Rightarrow> results" where
  "add_result res index data =
     (case res index of
        None \<Rightarrow> res(index \<mapsto> data)
      | Some (xs, ys) \<Rightarrow> res(index \<mapsto> (xs @ fst data, ys @ snd data)))"

text \<open>
  The body of the \<^verbatim>\<open>while\<close> loop of \<^verbatim>\<open>wait_for_idle\<close> for one report \<open>res\<close>: every
  key of the report extends the lists already held for it, or is entered as it is.
\<close>

definition merge_report :: "results \<Rightarrow> results \<Rightarrow> results" where
  "merge_report results res =
     (\<lambda>key. case res key of
               None \<Rightarrow> results key
             | Some (xs, ys) \<Rightarrow>
                 (case results key of
                    None \<Rightarrow> Some (xs, ys)
                  | Some (xs0, ys0) \<Rightarrow> Some (xs0 @ xs, ys0 @ ys)))"

text \<open>
  Where a worker stands in \<^verbatim>\<open>SolverSubprocess.run\<close>: about to take from the task queue
  with its \<^verbatim>\<open>self.results\<close>; evaluating a task it has taken; blocked on the resume queue
  after reporting (its results are cleared); or dead because a condition raised.
\<close>

datatype worker = Ready results | Busy results nat driver TrackPoint | Waiting | Crashed

text \<open>
  The pool during one sweep step: the three queues, the workers, and the locals
  \<^verbatim>\<open>idle_count\<close> and \<^verbatim>\<open>results\<close> of \<^verbatim>\<open>wait_for_idle\<close>. Within a sweep step the resume
  queue holds \<^verbatim>\<open>'resume'\<close> commands only, so it is their number.
\<close>

record pool =
  task_queue :: "task list"
  idle_queue :: "results list"
  resume_queue :: nat
  workers :: "worker list"
  idle_count :: nat
  merged :: results

text \<open>
  The next atomic action of worker \<open>i\<close>; \<open>None\<close> when it is blocked on an empty queue
  (or dead).
\<close>

definition worker_step :: "conditions \<Rightarrow> nat \<Rightarrow> pool \<Rightarrow> pool option" where
  "worker_step conds i s =
     (if length (workers s) \<le> i then None
      else case workers s ! i of
        Ready r \<Rightarrow>
          (case task_queue s of
             [] \<Rightarrow> None
           | Work c d p # q \<Rightarrow>
               Some (s\<lparr>task_queue := q, workers := (workers s)[i := Busy r c d p]\<rparr>)
           | IdleCmd # q \<Rightarrow>
               Some (s\<lparr>task_queue := q, idle_queue := idle_queue s @ [r],
                       workers := (workers s)[i := Waiting]\<rparr>))
      | Busy r c d p \<Rightarrow>
          (case conds c d p of
             Inl e \<Rightarrow> Some (s\<lparr>workers := (workers s)[i := Crashed]\<rparr>)
           | Inr data \<Rightarrow> Some (s\<lparr>workers := (workers s)[i := Ready (add_result r c data)]\<rparr>))
      | Waiting \<Rightarrow>
          (case resume_queue s of
             0 \<Rightarrow> None
           | Suc n \<Rightarrow> Some (s\<lparr>resume_queue := n, workers := (workers s)[i := Ready Map.empty]\<rparr>))
      | Crashed \<Rightarrow> None)"

text \<open>
  One pass of the loop of \<^verbatim>\<open>wait_for_idle\<close>; \<open>None\<close> when the loop has ended or the idle
  queue is empty.
\<close>

definition coordinator_step :: "nat \<Rightarrow> pool \<Rightarrow> pool option" where
  "coordinator_step number_of_processes s =
     (if idle_count s = number_of_processes then None
      else case idle_queue s of
        [] \<Rightarrow> None
      | res # rest \<Rightarrow>
          Some (s\<lparr>idle_queue := rest, merged := merge_report (merged s) res,
                  idle_count := Suc (idle_count s)\<rparr>))"

text \<open>A schedule names who moves next; a run follows a schedule as far as it is enabled.\<close>

datatype actor = Worker nat | Coordinator

definition pool_step :: "conditions \<Rightarrow> nat \<Rightarrow> actor \<Rightarrow> pool \<Rightarrow> pool option" where
  "pool_step conds n a s =
     (case a of Worker i \<Rightarrow> worker_step conds i s | Coordinator \<Rightarrow> coordinator_step n s)"

fun run :: "conditions \<Rightarrow> nat \<Rightarrow> actor list \<Rightarrow> pool \<Rightarrow> pool option" where
  "run conds n [] s = Some s"
| "run conds n (a # as) s =
     (case pool_step conds n a s of None \<Rightarrow> None | Some s1 \<Rightarrow> run conds n as s1)"

fun is_waiting :: "worker \<Rightarrow> bool" where
  "is_waiting Waiting = True"
| "is_waiting w = False"

text \<open>
  The pool when \<^verbatim>\<open>wait_for_idle\<close> is entered: the step's tasks are queued, followed by
  one \<^verbatim>\<open>'idle'\<close> per worker (\<^verbatim>\<open>queue_idle_command\<close>); every worker has empty results
  and either runs or has not yet taken its \<^verbatim>\<open>'resume'\<close> of the previous step, which is
  then still in the resume queue. The workers may start on the tasks while the coordinator
  is still queueing; as the queue is first-in first-out this gives no behaviour that the
  runs from this state do not have.
\<close>

definition sweep_start :: "nat \<Rightarrow> (nat \<times> driver \<times> TrackPoint) list \<Rightarrow> worker list \<Rightarrow> pool" where
  "sweep_start n ts ws =
     \<lparr>task_queue = map (\<lambda>(c, d, p). Work c d p) ts @ replicate n IdleCmd,
      idle_queue = [],
      resume_queue = length (filter is_waiting ws),
      workers = ws,
      idle_count = 0,
      merged = Map.empty\<rparr>"

text \<open>
  The outputs of the tasks of one condition, in queue order: what the merged result must
  hold, up to the order in which the workers delivered.
\<close>

definition outputs_x ::
  "conditions \<Rightarrow> nat \<Rightarrow> (nat \<times> driver \<times> TrackPoint) list \<Rightarrow> real list" where
  "outputs_x conds key ts =
     concat (map (\<lambda>(c, d, p).
                    if c = key
                    then (case conds c d p of Inl e \<Rightarrow> [] | Inr data \<Rightarrow> fst data)
                    else []) ts)"

definition outputs_y ::
  "conditions \<Rightarrow> nat \<Rightarrow> (nat \<times> driver \<times> TrackPoint) list \<Rightarrow> real list" where
  "outputs_y conds key ts =
     concat (map (\<lambda>(c, d, p).
                    if c = key
                    then (case conds c d p of Inl e \<Rightarrow> [] | Inr data \<Rightarrow> snd data)
                    else []) ts)"

definition merged_x :: "pool \<Rightarrow> nat \<Rightarrow> real list" where
  "merged_x s key = (case merged s key of None \<Rightarrow> [] | Some data \<Rightarrow> fst data)"

definition merged_y :: "pool \<Rightarrow> nat \<Rightarrow> real list" where
  "merged_y s key = (case merged s key of None \<Rightarrow> [] | Some data \<Rightarrow> snd data)"

text \<open>Bookkeeping for the proofs about the pool.\<close>

fun active_w :: "worker \<Rightarrow> nat" where
  "active_w (Ready r) = 1"
| "active_w (Busy r c d p) = 1"
| "active_w w = 0"

fun crashed_w :: "worker \<Rightarrow> nat" where
  "crashed_w Crashed = 1"
| "crashed_w w = 0"

fun busy_w :: "worker \<Rightarrow> nat" where
  "busy_w (Busy r c d p) = 1"
| "busy_w w = 0"

fun is_idle :: "task \<Rightarrow> bool" where
  "is_idle IdleCmd = True"
| "is_idle t = False"

definition idles :: "task list \<Rightarrow> nat" where
  "idles q = length (filter is_idle q)"

text \<open>In the task queue no task follows an \<^verbatim>\<open>'idle'\<close>.\<close>

fun works_first :: "task list \<Rightarrow> bool" where
  "works_first [] = True"
| "works_first (Work c d p # q) = works_first q"
| "works_first (IdleCmd # q) = list_all is_idle q"

definition pool_inv :: "nat \<Rightarrow> pool \<Rightarrow> bool" where
  "pool_inv n s \<longleftrightarrow>
     length (workers s) = n \<and>
     works_first (task_queue s) \<and>
     (idles (task_queue s) = n \<or> list_all is_idle (task_queue s)) \<and>
     idles (task_queue s)
       = sum_list (map active_w (workers s)) + resume_queue s + sum_list (map crashed_w (workers s)) \<and>
     idle_count s + length (idle_queue s) + idles (task_queue s) = n"

text \<open>
  Accounting of the values in flight, through a measure \<open>f\<close> of a pair of lists that is
  additive over concatenation.
\<close>

definition additive :: "(real list \<times> real list \<Rightarrow> real multiset) \<Rightarrow> bool" where
  "additive f \<longleftrightarrow> (\<forall>a b c d. f (a @ b, c @ d) = f (a, c) + f (b, d))"

definition bag :: "(real list \<times> real list \<Rightarrow> real multiset) \<Rightarrow> (real list \<times> real list) option
    \<Rightarrow> real multiset" where
  "bag f v = (case v of None \<Rightarrow> {#} | Some data \<Rightarrow> f data)"

fun due :: "conditions \<Rightarrow> (real list \<times> real list \<Rightarrow> real multiset) \<Rightarrow> nat \<Rightarrow> task \<Rightarrow> real multiset" where
  "due conds f key (Work c d p) =
     (if c = key then (case conds c d p of Inl e \<Rightarrow> {#} | Inr data \<Rightarrow> f data) else {#})"
| "due conds f key IdleCmd = {#}"

fun held :: "conditions \<Rightarrow> (real list \<times> real list \<Rightarrow> real multiset) \<Rightarrow> nat \<Rightarrow> worker \<Rightarrow> real multiset" where
  "held conds f key (Ready r) = bag f (r key)"
| "held conds f key (Busy r c d p) = bag f (r key) + due conds f key (Work c d p)"
| "held conds f key Waiting = {#}"
| "held conds f key Crashed = {#}"

definition stock :: "conditions \<Rightarrow> (real list \<times> real list \<Rightarrow> real multiset) \<Rightarrow> nat \<Rightarrow> pool \<Rightarrow> real multiset" where
  "stock conds f key s =
     bag f (merged s key)
     + sum_list (map (\<lambda>r. bag f (r key)) (idle_queue s))
     + sum_list (map (held conds f key) (workers s))
     + sum_list (map (due conds f key) (task_queue s))"

definition crashes :: "pool \<Rightarrow> nat" where
  "crashes s = sum_list (map crashed_w (workers s))"

text \<open>Every step uses up some of a bounded measure, so a run cannot go on forever.\<close>

definition pool_measure :: "pool \<Rightarrow> nat" where
  "pool_measure s = 2 * length (task_queue s) + sum_list (map busy_w (workers s))
              + resume_queue s + length (idle_queue s)"

text \<open>Tasks whose condition returns: no worker dies on them.\<close>

fun task_ok :: "conditions \<Rightarrow> task \<Rightarrow> bool" where
  "task_ok conds (Work c d p) = (\<not> isl (conds c d p))"
| "task_ok conds IdleCmd = True"

fun worker_ok :: "conditions \<Rightarrow> worker \<Rightarrow> bool" where
  "worker_ok conds (Busy r c d p) = (\<not> isl (conds c d p))"
| "worker_ok conds Crashed = False"
| "worker_ok conds w = True"

definition tasks_ok :: "conditions \<Rightarrow> pool \<Rightarrow> bool" where
  "tasks_ok conds s \<longleftrightarrow>
     list_all (task_ok conds) (task_queue s) \<and> list_all (worker_ok conds) (workers s)"

text \<open>
  The specification's scenario: two workers, one condition, three drivers; and a schedule
  in which worker 1 takes two of the three tasks.
\<close>

definition demo_conds :: conditions where
  "demo_conds c d p = Inr ([real d], [px p])"

definition demo_tasks :: "(nat \<times> driver \<times> TrackPoint) list" where
  "demo_tasks = [(0, 1, mk_point 7 0), (0, 2, mk_point 7 0), (0, 3, mk_point 7 0)]"

definition demo_schedule :: "actor list" where
  "demo_schedule =
     [Worker 0, Worker 1, Worker 1, Worker 1, Worker 0, Worker 1, Worker 1, Worker 0,
      Coordinator, Coordinator]"

section \<open>Properties of the sequencing loop\<close>

lemma get_sqr_dist_sym: "get_sqr_dist a b = get_sqr_dist b a"
  by (simp add: get_sqr_dist_def abs_minus_commute)

lemma get_sqr_dist_nonneg: "0 \<le> get_sqr_dist a b"
  by (simp add: get_sqr_dist_def)

lemma sort_step_fst:
  "fst (sort_step np tm) =
     unsorted_points tm ! list_index (map (get_sqr_dist np) (unsorted_points tm))
                 (min_list (map (get_sqr_dist np) (unsorted_points tm)))"
  by (simp add: sort_step_def Let_def)

lemma sort_step_sorted:
  "sorted_points (snd (sort_step np tm)) =
     (if min_list (map (get_sqr_dist np) (unsorted_points tm)) > 200
      then sorted_points tm else sorted_points tm @ [np])"
  by (simp add: sort_step_def Let_def)

lemma sort_step_excluded:
  "excluded_points (snd (sort_step np tm)) =
     (if min_list (map (get_sqr_dist np) (unsorted_points tm)) > 200
      then excluded_points tm @ [np] else excluded_points tm)"
  by (simp add: sort_step_def Let_def)

lemma sort_step_other:
  "distances (snd (sort_step np tm)) = distances tm"
  "distances_normalized (snd (sort_step np tm)) = distances_normalized tm"
  "raw_pos_data (snd (sort_step np tm)) = raw_pos_data tm"
  by (simp_all add: sort_step_def Let_def)

lemma sort_loop_unsorted: "unsorted_points (snd (sort_loop np tm)) = []"
proof (induction np tm rule: sort_loop.induct)
  case (1 np tm)
  then show ?case by (subst sort_loop.simps) simp
qed

lemma sort_loop_other:
  "distances (snd (sort_loop np tm)) = distances tm \<and>
   distances_normalized (snd (sort_loop np tm)) = distances_normalized tm \<and>
   raw_pos_data (snd (sort_loop np tm)) = raw_pos_data tm"
proof (induction np tm rule: sort_loop.induct)
  case (1 np tm)
  then show ?case by (subst (1 2 3) sort_loop.simps) (simp add: sort_step_other)
qed

text \<open>The position of the minimum: its value, and that it is the first one.\<close>

lemma min_index_props:
  fixes ds :: "real list"
  assumes "ds \<noteq> []"
  defines "i \<equiv> list_index ds (min_list ds)"
  shows "i < length ds" "ds ! i = min_list ds" "\<forall>v \<in> set ds. ds ! i \<le> v"
    "\<forall>j < i. ds ! i < ds ! j"
proof -
  have mem: "min_list ds \<in> set ds" using assms(1) by (rule min_list_in)
  show less: "i < length ds" unfolding i_def using mem by (rule list_index_less)
  show val: "ds ! i = min_list ds" unfolding i_def using mem by (rule list_index_nth)
  show "\<forall>v \<in> set ds. ds ! i \<le> v" using val min_list_le by simp
  show "\<forall>j < i. ds ! i < ds ! j"
  proof (intro allI impI)
    fix j assume j: "j < i"
    then have ne: "ds ! j \<noteq> min_list ds" unfolding i_def by (rule list_index_first)
    have "ds ! j \<in> set ds" using j less by simp
    then have "min_list ds \<le> ds ! j" by (rule min_list_le)
    with ne val show "ds ! i < ds ! j" by simp
  qed
qed

text \<open>
  Claim C2. In a pass of the loop with unsorted points left, the point popped is the first
  one among the remaining points at minimum distance from the current point. When that
  minimum exceeds 200 the current point goes to the excluded list, otherwise to the sorted
  list; the popped point is the next current point, and the loop ends with no unsorted
  point left.
\<close>

theorem sort_step_greedy:
  assumes "unsorted_points tm \<noteq> []"
  shows "\<exists>i < length (unsorted_points tm).
           fst (sort_step np tm) = unsorted_points tm ! i
         \<and> (\<forall>q \<in> set (unsorted_points tm).
               get_sqr_dist np (unsorted_points tm ! i) \<le> get_sqr_dist np q)
         \<and> (\<forall>j < i. get_sqr_dist np (unsorted_points tm ! i)
                       < get_sqr_dist np (unsorted_points tm ! j))
         \<and> unsorted_points (snd (sort_step np tm))
             = take i (unsorted_points tm) @ drop (Suc i) (unsorted_points tm)
         \<and> (if 200 < get_sqr_dist np (unsorted_points tm ! i)
            then excluded_points (snd (sort_step np tm)) = excluded_points tm @ [np]
               \<and> sorted_points (snd (sort_step np tm)) = sorted_points tm
            else sorted_points (snd (sort_step np tm)) = sorted_points tm @ [np]
               \<and> excluded_points (snd (sort_step np tm)) = excluded_points tm)
         \<and> sort_loop np tm = sort_loop (fst (sort_step np tm)) (snd (sort_step np tm))
         \<and> unsorted_points (snd (sort_loop np tm)) = []"
proof -
  let ?us = "unsorted_points tm"
  let ?ds = "map (get_sqr_dist np) ?us"
  let ?i = "list_index ?ds (min_list ?ds)"
  have ne: "?ds \<noteq> []" using assms by simp
  have i: "?i < length ?us" using min_index_props(1) [OF ne] by simp
  have val: "get_sqr_dist np (?us ! ?i) = min_list ?ds"
    using min_index_props(2) [OF ne] i by simp
  have le: "\<forall>q \<in> set ?us. get_sqr_dist np (?us ! ?i) \<le> get_sqr_dist np q"
    using min_index_props(3) [OF ne] i by simp
  have first: "\<forall>j < ?i. get_sqr_dist np (?us ! ?i) < get_sqr_dist np (?us ! j)"
  proof (intro allI impI)
    fix j assume j: "j < ?i"
    with min_index_props(4) [OF ne] have "?ds ! ?i < ?ds ! j" by blast
    with i j show "get_sqr_dist np (?us ! ?i) < get_sqr_dist np (?us ! j)" by simp
  qed
  have loop: "sort_loop np tm = sort_loop (fst (sort_step np tm)) (snd (sort_step np tm))"
    using assms by (subst sort_loop.simps) simp
  show ?thesis
  proof (intro exI [of _ ?i] conjI)
    show "?i < length ?us" by (rule i)
    show "fst (sort_step np tm) = ?us ! ?i" by (rule sort_step_fst)
    show "\<forall>q \<in> set ?us. get_sqr_dist np (?us ! ?i) \<le> get_sqr_dist np q" by (rule le)
    show "\<forall>j < ?i. get_sqr_dist np (?us ! ?i) < get_sqr_dist np (?us ! j)" by (rule first)
    show "unsorted_points (snd (sort_step np tm)) = take ?i ?us @ drop (Suc ?i) ?us"
      by (simp add: sort_step_unsorted pop_rest_def)
    show "if 200 < get_sqr_dist np (?us ! ?i)
          then excluded_points (snd (sort_step np tm)) = excluded_points tm @ [np]
             \<and> sorted_points (snd (sort_step np tm)) = sorted_points tm
          else sorted_points (snd (sort_step np tm)) = sorted_points tm @ [np]
             \<and> excluded_points (snd (sort_step np tm)) = excluded_points tm"
      by (simp add: val sort_step_sorted sort_step_excluded)
    show "sort_loop np tm = sort_loop (fst (sort_step np tm)) (snd (sort_step np tm))"
      by (rule loop)
    show "unsorted_points (snd (sort_loop np tm)) = []" by (rule sort_loop_unsorted)
  qed
qed


theorem sort_step_greedy_witness:
  "unsorted_points (new_TrackMap Map.empty [mk_point 1 1, mk_point 1 0]) \<noteq> []
   \<and> fst (sort_step (mk_point 0 0) (new_TrackMap Map.empty [mk_point 1 1, mk_point 1 0]))
       = mk_point 1 0
   \<and> sorted_points (snd (sort_step (mk_point 0 0)
         (new_TrackMap Map.empty [mk_point 1 1, mk_point 1 0]))) = [mk_point 0 0]
   \<and> unsorted_points (snd (sort_loop (mk_point 0 0)
         (new_TrackMap Map.empty [mk_point 1 1, mk_point 1 0]))) = []"
proof -
  let ?tm = "new_TrackMap Map.empty [mk_point 1 1, mk_point 1 0]"
  have h: "unsorted_points ?tm \<noteq> []" by (simp add: new_TrackMap_def)
  from sort_step_greedy [OF h, of "mk_point 0 0"]
  have "unsorted_points (snd (sort_loop (mk_point 0 0) ?tm)) = []" by blast
  then show ?thesis
    by (simp add: sort_step_def new_TrackMap_def mk_point_def get_sqr_dist_def
        pop_rest_def Let_def)
qed

lemma pop_rest_mset:
  "i < length xs \<Longrightarrow> add_mset (xs ! i) (mset (pop_rest i xs)) = mset xs"
proof -
  assume i: "i < length xs"
  have "xs = take i xs @ xs ! i # drop (Suc i) xs" using i by (rule id_take_nth_drop)
  then have "mset xs = mset (take i xs @ xs ! i # drop (Suc i) xs)" by simp
  then show ?thesis by (simp add: pop_rest_def)
qed

lemma sort_step_mset:
  assumes "unsorted_points tm \<noteq> []"
  shows "add_mset (fst (sort_step np tm)) (mset (unsorted_points (snd (sort_step np tm))))
           = mset (unsorted_points tm)"
proof -
  let ?ds = "map (get_sqr_dist np) (unsorted_points tm)"
  have "?ds \<noteq> []" using assms by simp
  then have "list_index ?ds (min_list ?ds) < length ?ds" by (rule min_index_less)
  then have "list_index ?ds (min_list ?ds) < length (unsorted_points tm)" by simp
  then show ?thesis by (simp add: sort_step_fst sort_step_unsorted pop_rest_mset)
qed

text \<open>No point is lost or duplicated by the loop.\<close>

lemma sort_loop_mset:
  "add_mset (fst (sort_loop np tm))
     (mset (sorted_points (snd (sort_loop np tm))) +
      mset (excluded_points (snd (sort_loop np tm))))
   = add_mset np (mset (unsorted_points tm) + mset (sorted_points tm) +
                  mset (excluded_points tm))"
proof (induction np tm rule: sort_loop.induct)
  case (1 np tm)
  show ?case
  proof (cases "unsorted_points tm = []")
    case True
    then show ?thesis by (subst (1 2 3) sort_loop.simps) simp
  next
    case False
    let ?np = "fst (sort_step np tm)" and ?tm = "snd (sort_step np tm)"
    have eq: "sort_loop np tm = sort_loop ?np ?tm"
      using False by (subst sort_loop.simps) simp
    have "add_mset ?np (mset (unsorted_points ?tm)) = mset (unsorted_points tm)"
      using False by (rule sort_step_mset)
    then have us: "mset (unsorted_points tm) = add_mset ?np (mset (unsorted_points ?tm))"
      by simp
    show ?thesis
      unfolding eq "1.IH" [OF False] us
      by (simp add: sort_step_sorted sort_step_excluded)
  qed
qed

lemma sort_loop_gapless_excluded:
  "gapless np tm \<Longrightarrow> excluded_points (snd (sort_loop np tm)) = excluded_points tm"
proof (induction np tm rule: sort_loop.induct)
  case (1 np tm)
  show ?case
  proof (cases "unsorted_points tm = []")
    case True
    then show ?thesis by (subst sort_loop.simps) simp
  next
    case False
    let ?np = "fst (sort_step np tm)" and ?tm = "snd (sort_step np tm)"
    from "1.prems" False
    have m: "min_list (map (get_sqr_dist np) (unsorted_points tm)) \<le> 200"
      and g: "gapless ?np ?tm"
      by (subst (asm) gapless.simps, simp)+
    have eq: "sort_loop np tm = sort_loop ?np ?tm"
      using False by (subst sort_loop.simps) simp
    show ?thesis
      unfolding eq "1.IH" [OF False g] using m by (simp add: sort_step_excluded)
  qed
qed

text \<open>
  After a gapless tour of at least one step, the point left over is within the threshold
  of the last sorted point.
\<close>

lemma sort_loop_gapless_last:
  "gapless np tm \<Longrightarrow> unsorted_points tm \<noteq> [] \<Longrightarrow>
     sorted_points (snd (sort_loop np tm)) \<noteq> [] \<and>
     get_sqr_dist (fst (sort_loop np tm)) (last (sorted_points (snd (sort_loop np tm)))) \<le> 200"
proof (induction np tm rule: sort_loop.induct)
  case (1 np tm)
  let ?us = "unsorted_points tm"
  let ?ds = "map (get_sqr_dist np) ?us"
  let ?np = "fst (sort_step np tm)" and ?tm = "snd (sort_step np tm)"
  have False: "?us \<noteq> []" by (rule "1.prems"(2))
  from "1.prems"(1) False
  have m: "min_list ?ds \<le> 200" and g: "gapless ?np ?tm"
    by (subst (asm) gapless.simps, simp)+
  have eq: "sort_loop np tm = sort_loop ?np ?tm"
    using False by (subst sort_loop.simps) simp
  show ?case
  proof (cases "unsorted_points ?tm = []")
    case True
    have ne: "?ds \<noteq> []" using False by simp
    have i: "list_index ?ds (min_list ?ds) < length ?us"
      using min_index_props(1) [OF ne] by simp
    have "get_sqr_dist np ?np = min_list ?ds"
      using min_index_props(2) [OF ne] i by (simp add: sort_step_fst)
    then have d: "get_sqr_dist ?np np \<le> 200" using m by (simp add: get_sqr_dist_sym)
    have fin: "sort_loop ?np ?tm = (?np, ?tm)"
      using True by (subst sort_loop.simps) simp
    show ?thesis unfolding eq fin using m d by (simp add: sort_step_sorted)
  next
    case ne: False
    show ?thesis unfolding eq by (rule "1.IH" [OF False g ne])
  qed
qed

text \<open>
  The sequencing of \<^verbatim>\<open>experimental.py\<close> on a gapless tour: for at least two distinct
  points it returns, its sorted list holds every input point exactly once, and nothing is
  excluded.
\<close>

theorem sort_points_gapless:
  assumes len: "2 \<le> length pts" and dist: "distinct pts"
    and gap: "gapless (hd pts) (new_TrackMap raw (tl pts))"
  shows "\<exists>tm1. sort_points (new_TrackMap raw pts) = Inr tm1
           \<and> mset (sorted_points tm1) = mset pts
           \<and> distinct (sorted_points tm1)
           \<and> excluded_points tm1 = []
           \<and> unsorted_points tm1 = []"
proof -
  from len obtain p rest where pts: "pts = p # rest" and rest: "rest \<noteq> []"
    by (cases pts) (auto simp: Suc_le_eq)
  let ?tm0 = "new_TrackMap raw rest"
  let ?r = "sort_loop p ?tm0"
  have tm0: "(new_TrackMap raw pts)\<lparr>unsorted_points := rest\<rparr> = ?tm0"
    by (simp add: new_TrackMap_def)
  have g: "gapless p ?tm0" using gap pts by simp
  have us: "unsorted_points ?tm0 \<noteq> []" using rest by (simp add: new_TrackMap_def)
  have ex: "excluded_points (snd ?r) = []"
    using sort_loop_gapless_excluded [OF g] by (simp add: new_TrackMap_def)
  from sort_loop_gapless_last [OF g us]
  have sne: "sorted_points (snd ?r) \<noteq> []"
    and near: "get_sqr_dist (fst ?r) (last (sorted_points (snd ?r))) \<le> 200"
    by simp_all
  have ms: "add_mset (fst ?r) (mset (sorted_points (snd ?r))) = mset pts"
    using sort_loop_mset [of p ?tm0] ex by (simp add: new_TrackMap_def pts)
  let ?res = "(snd ?r)\<lparr>next_point := Some (fst ?r),
                        sorted_points := sorted_points (snd ?r) @ [fst ?r]\<rparr>"
  have run: "sort_points (new_TrackMap raw pts) = Inr ?res"
    using sne near by (simp add: sort_points_def pts tm0 Let_def new_TrackMap_def)
  have m: "mset (sorted_points ?res) = mset pts" using ms by simp
  have d: "distinct (sorted_points ?res)"
    using dist m by (metis distinct_count_atmost_1 set_mset_mset)
  show ?thesis
    using run m d ex by (intro exI [of _ ?res]) (simp add: sort_loop_unsorted)
qed

lemma unit_square_gapless:
  "gapless (hd unit_square) (new_TrackMap Map.empty (tl unit_square))"
  by (simp add: gapless.simps sort_step_def unit_square_def new_TrackMap_def mk_point_def
      get_sqr_dist_def pop_rest_def Let_def)

theorem sort_points_gapless_witness:
  "2 \<le> length unit_square \<and> distinct unit_square
   \<and> gapless (hd unit_square) (new_TrackMap Map.empty (tl unit_square))
   \<and> (\<exists>tm1. sort_points (new_TrackMap Map.empty unit_square) = Inr tm1
           \<and> mset (sorted_points tm1) = mset unit_square
           \<and> distinct (sorted_points tm1)
           \<and> excluded_points tm1 = []
           \<and> unsorted_points tm1 = [])"
proof -
  have a: "2 \<le> length unit_square" by (simp add: unit_square_def)
  have b: "distinct unit_square" by (simp add: unit_square_def mk_point_def)
  note c = unit_square_gapless
  from sort_points_gapless [OF a b c] a b c show ?thesis by blast
qed

text \<open>
  The sequencing of \<^verbatim>\<open>testing.py\<close> keeps the point left over by the loop out of both
  lists, so its sorted list never holds every input point.
\<close>

lemma sort_points_testing_never_all:
  assumes "sort_points_testing (new_TrackMap raw pts) = Inr tt"
  shows "mset (sorted_points tt) \<noteq> mset pts"
proof (cases pts)
  case Nil
  with assms show ?thesis by (simp add: sort_points_testing_def new_TrackMap_def)
next
  case (Cons p rest)
  let ?r = "sort_loop p (new_TrackMap raw rest)"
  have tm0: "(new_TrackMap raw pts)\<lparr>unsorted_points := rest\<rparr> = new_TrackMap raw rest"
    by (simp add: new_TrackMap_def)
  from assms have tt: "sorted_points tt = sorted_points (snd ?r)"
    by (auto simp: sort_points_testing_def Cons tm0 Let_def new_TrackMap_def)
  have "add_mset (fst ?r) (mset (sorted_points (snd ?r)) + mset (excluded_points (snd ?r)))
          = mset pts"
    using sort_loop_mset [of p "new_TrackMap raw rest"] by (simp add: new_TrackMap_def Cons)
  then have "size (mset pts)
      = Suc (size (mset (sorted_points (snd ?r))) + size (mset (excluded_points (snd ?r))))"
    by (metis size_add_mset size_union)
  then have less: "size (mset (sorted_points tt)) < size (mset pts)" by (simp add: tt)
  show ?thesis
  proof
    assume "mset (sorted_points tt) = mset pts"
    then have "size (mset (sorted_points tt)) = size (mset pts)" by (rule arg_cong)
    with less show False by linarith
  qed
qed

text \<open>
  Claim C3 (does not hold on the code). The unit square is a gapless tour of four distinct
  points. The sequencing of \<^verbatim>\<open>testing.py\<close> sorts three of them and leaves the point
  (0, 1) in \<^verbatim>\<open>_next_point\<close>, neither sorted nor excluded, where the claim has every
  input point in the sorted list; the sequencing of \<^verbatim>\<open>experimental.py\<close> sorts all four.
\<close>

theorem sort_points_testing_gapless_misses_last:
  "2 \<le> length unit_square \<and> distinct unit_square
   \<and> gapless (hd unit_square) (new_TrackMap Map.empty (tl unit_square))
   \<and> sort_points_testing (new_TrackMap Map.empty unit_square)
       = Inr ((new_TrackMap Map.empty [])\<lparr>
                sorted_points := [mk_point 0 0, mk_point 1 0, mk_point 1 1],
                next_point := Some (mk_point 0 1)\<rparr>)
   \<and> mset [mk_point 0 0, mk_point 1 0, mk_point 1 1] \<noteq> mset unit_square
   \<and> sort_points (new_TrackMap Map.empty unit_square)
       = Inr ((new_TrackMap Map.empty [])\<lparr>sorted_points := unit_square,
                next_point := Some (mk_point 0 1)\<rparr>)"
proof -
  have a: "2 \<le> length unit_square" by (simp add: unit_square_def)
  have b: "distinct unit_square" by (simp add: unit_square_def mk_point_def)
  have t: "sort_points_testing (new_TrackMap Map.empty unit_square)
       = Inr ((new_TrackMap Map.empty [])\<lparr>
                sorted_points := [mk_point 0 0, mk_point 1 0, mk_point 1 1],
                next_point := Some (mk_point 0 1)\<rparr>)"
    by (simp add: sort_points_testing_def sort_loop.simps sort_step_def unit_square_def
        new_TrackMap_def mk_point_def get_sqr_dist_def pop_rest_def Let_def)
  have m: "mset [mk_point 0 0, mk_point 1 0, mk_point 1 1] \<noteq> mset unit_square"
    using sort_points_testing_never_all [OF t] by simp
  have e: "sort_points (new_TrackMap Map.empty unit_square)
       = Inr ((new_TrackMap Map.empty [])\<lparr>sorted_points := unit_square,
                next_point := Some (mk_point 0 1)\<rparr>)"
    by (simp add: sort_points_def sort_loop.simps sort_step_def unit_square_def
        new_TrackMap_def mk_point_def get_sqr_dist_def pop_rest_def Let_def)
  show ?thesis using a b unit_square_gapless t m e by blast
qed

text \<open>Far-apart points: the loop excludes every point it visits.\<close>

lemma sorted_wrt_far_pop:
  assumes sw: "sorted_wrt far us" and i: "i < length us"
  shows "sorted_wrt far (pop_rest i us)" "\<forall>q \<in> set (pop_rest i us). far (us ! i) q"
proof -
  have split: "us = take i us @ us ! i # drop (Suc i) us" using i by (rule id_take_nth_drop)
  have "sorted_wrt far (take i us @ us ! i # drop (Suc i) us)" using sw split by simp
  then have parts: "sorted_wrt far (take i us)" "sorted_wrt far (drop (Suc i) us)"
    "\<forall>a \<in> set (take i us). far a (us ! i) \<and> (\<forall>b \<in> set (drop (Suc i) us). far a b)"
    "\<forall>b \<in> set (drop (Suc i) us). far (us ! i) b"
    by (auto simp: sorted_wrt_append)
  show "sorted_wrt far (pop_rest i us)"
    using parts by (auto simp: pop_rest_def sorted_wrt_append)
  show "\<forall>q \<in> set (pop_rest i us). far (us ! i) q"
    using parts by (auto simp: pop_rest_def get_sqr_dist_sym)
qed

lemma sort_loop_far:
  "sorted_wrt far (unsorted_points tm) \<Longrightarrow> \<forall>q \<in> set (unsorted_points tm). far np q \<Longrightarrow>
     sorted_points (snd (sort_loop np tm)) = sorted_points tm"
proof (induction np tm rule: sort_loop.induct)
  case (1 np tm)
  show ?case
  proof (cases "unsorted_points tm = []")
    case True
    then show ?thesis by (subst sort_loop.simps) simp
  next
    case False
    let ?us = "unsorted_points tm"
    let ?ds = "map (get_sqr_dist np) ?us"
    let ?i = "list_index ?ds (min_list ?ds)"
    let ?np = "fst (sort_step np tm)" and ?tm = "snd (sort_step np tm)"
    have ne: "?ds \<noteq> []" using False by simp
    have i: "?i < length ?us" using min_index_props(1) [OF ne] by simp
    have "min_list ?ds \<in> set ?ds" using ne by (rule min_list_in)
    then have m: "200 < min_list ?ds" using "1.prems"(2) by auto
    have eq: "sort_loop np tm = sort_loop ?np ?tm"
      using False by (subst sort_loop.simps) simp
    have a: "sorted_wrt far (unsorted_points ?tm)"
      using sorted_wrt_far_pop(1) [OF "1.prems"(1) i] by (simp add: sort_step_unsorted)
    have b: "\<forall>q \<in> set (unsorted_points ?tm). far ?np q"
      using sorted_wrt_far_pop(2) [OF "1.prems"(1) i]
      by (simp add: sort_step_unsorted sort_step_fst)
    show ?thesis
      unfolding eq "1.IH" [OF False a b] using m by (simp add: sort_step_sorted)
  qed
qed

lemma far_apart_sorted_wrt:
  assumes "\<forall>i < length pts. \<forall>j < length pts. i \<noteq> j \<longrightarrow> far (pts ! i) (pts ! j)"
  shows "sorted_wrt far pts"
  using assms by (simp add: sorted_wrt_iff_nth_less)

text \<open>
  Claim C4, as amended. When all points are mutually farther apart than 200, every point
  the loop visits is excluded, nothing is sorted, and track generation raises:
  \<^verbatim>\<open>IndexError\<close> in \<^verbatim>\<open>experimental.py\<close> (the closing test reads the last element of
  the empty sorted list), \<^verbatim>\<open>ZeroDivisionError\<close> in \<^verbatim>\<open>testing.py\<close> (the
  normalisation divides by a total of 0). No track is produced.
\<close>

theorem generate_track_far_apart:
  assumes "\<forall>i < length pts. \<forall>j < length pts. i \<noteq> j \<longrightarrow> 200 < get_sqr_dist (pts ! i) (pts ! j)"
  shows "generate_track (new_TrackMap raw pts) = Inl IndexError \<and>
         generate_track_testing (new_TrackMap raw pts)
           = Inl (if pts = [] then IndexError else ZeroDivisionError)"
proof (cases pts)
  case Nil
  then show ?thesis
    by (simp add: generate_track_def generate_track_testing_def sort_points_def
        sort_points_testing_def new_TrackMap_def)
next
  case (Cons p rest)
  let ?tm0 = "new_TrackMap raw rest"
  have tm0: "(new_TrackMap raw pts)\<lparr>unsorted_points := rest\<rparr> = ?tm0"
    by (simp add: new_TrackMap_def)
  have sw: "sorted_wrt far pts" using assms by (rule far_apart_sorted_wrt)
  then have a: "sorted_wrt far (unsorted_points ?tm0)"
    and b: "\<forall>q \<in> set (unsorted_points ?tm0). far p q"
    by (simp_all add: Cons new_TrackMap_def)
  have s: "sorted_points (snd (sort_loop p ?tm0)) = []"
    using sort_loop_far [OF a b] by (simp add: new_TrackMap_def)
  have d: "distances (snd (sort_loop p ?tm0)) = []"
    using sort_loop_other [of p ?tm0] by (simp add: new_TrackMap_def)
  have e: "sort_points (new_TrackMap raw pts) = Inl IndexError"
    using s by (simp add: sort_points_def Cons tm0 Let_def new_TrackMap_def)
  have t: "sort_points_testing (new_TrackMap raw pts)
             = Inr ((snd (sort_loop p ?tm0))\<lparr>next_point := Some (fst (sort_loop p ?tm0))\<rparr>)"
    by (simp add: sort_points_testing_def Cons tm0 Let_def new_TrackMap_def)
  have i: "integrate_distance ((snd (sort_loop p ?tm0))\<lparr>next_point := Some (fst (sort_loop p ?tm0))\<rparr>)
             = Inl ZeroDivisionError"
    by (simp add: integrate_distance_def s d)
  show ?thesis
    using e t i by (simp add: generate_track_def generate_track_testing_def Cons)
qed

theorem generate_track_far_apart_witness:
  "200 < get_sqr_dist (mk_point 0 0) (mk_point 0 500)
   \<and> 200 < get_sqr_dist (mk_point 0 500) (mk_point 0 0)
   \<and> generate_track (new_TrackMap Map.empty [mk_point 0 0, mk_point 0 500]) = Inl IndexError
   \<and> generate_track_testing (new_TrackMap Map.empty [mk_point 0 0, mk_point 0 500])
       = Inl ZeroDivisionError"
proof -
  let ?pts = "[mk_point 0 0, mk_point 0 500]"
  have d: "200 < get_sqr_dist (mk_point 0 0) (mk_point 0 500)"
    "200 < get_sqr_dist (mk_point 0 500) (mk_point 0 0)"
    by (simp_all add: mk_point_def get_sqr_dist_def)
  have h: "\<forall>i < length ?pts. \<forall>j < length ?pts. i \<noteq> j \<longrightarrow>
             200 < get_sqr_dist (?pts ! i) (?pts ! j)"
    using d by (simp add: less_Suc_eq)
  from generate_track_far_apart [OF h, of Map.empty] d show ?thesis by simp
qed

text \<open>
  The claim as stated (generation completes and yields a one-point track) fails on two
  points that are 1000 apart.
\<close>

theorem generate_track_far_apart_counterexample:
  "200 < get_sqr_dist (mk_point 0 0) (mk_point 1000 0)
   \<and> generate_track (new_TrackMap Map.empty [mk_point 0 0, mk_point 1000 0]) = Inl IndexError
   \<and> generate_track_testing (new_TrackMap Map.empty [mk_point 0 0, mk_point 1000 0])
       = Inl ZeroDivisionError"
  by (simp add: generate_track_def generate_track_testing_def sort_points_def
      sort_points_testing_def integrate_distance_def sort_loop.simps sort_step_def
      new_TrackMap_def mk_point_def get_sqr_dist_def pop_rest_def Let_def)

section \<open>Properties of the arc-length integration\<close>

lemma integrate_loop_append: "integrate_loop ps c (ds @ es) = ds @ integrate_loop ps c es"
  by (induction ps c es rule: integrate_loop.induct) (simp_all add: Let_def)

lemma integrate_loop_acc: "integrate_loop ps c ds = ds @ integrate_loop ps c []"
  using integrate_loop_append [of ps c ds "[]"] by simp

lemma integrate_loop_step:
  "integrate_loop (a # b # ps) c [] =
     (c + sqrt (get_sqr_dist a b)) # integrate_loop (b # ps) (c + sqrt (get_sqr_dist a b)) []"
  using integrate_loop_acc [of "b # ps" "c + sqrt (get_sqr_dist a b)" "[c + sqrt (get_sqr_dist a b)]"]
  by (simp add: Let_def)

lemma integrate_loop_length: "length (integrate_loop (a # ps) c []) = length ps"
proof (induction ps arbitrary: a c)
  case Nil
  show ?case by simp
next
  case (Cons b ps)
  show ?case unfolding integrate_loop_step by (simp add: Cons.IH)
qed

lemma integrate_loop_sorted:
  "sorted (integrate_loop (a # ps) c []) \<and> (\<forall>v \<in> set (integrate_loop (a # ps) c []). c \<le> v)"
proof (induction ps arbitrary: a c)
  case Nil
  show ?case by simp
next
  case (Cons b ps)
  let ?c = "c + sqrt (get_sqr_dist a b)"
  have ge: "c \<le> ?c" by (simp add: get_sqr_dist_nonneg)
  have ih: "sorted (integrate_loop (b # ps) ?c [])"
    "\<forall>v \<in> set (integrate_loop (b # ps) ?c []). ?c \<le> v"
    using Cons.IH [of b ?c] by simp_all
  have up: "\<forall>v \<in> set (integrate_loop (b # ps) ?c []). c \<le> v"
    using ih(2) ge by (blast intro: order_trans)
  show ?case
    unfolding integrate_loop_step using ih up ge by simp
qed

lemma sorted_divide:
  fixes ds :: "real list"
  shows "sorted ds \<Longrightarrow> 0 < t \<Longrightarrow> sorted (map (\<lambda>d. d / t) ds)"
  by (induction ds) (auto simp: divide_right_mono)

text \<open>
  Claim C5. On a fresh track map whose sorted list is not empty and whose final cumulative
  distance is positive, the integration returns; the cumulative distances are
  non-decreasing, the normalised distances start at 0, are non-decreasing and end at 1,
  and both arrays have one entry per sorted point.
\<close>

theorem integrate_distance_monotone:
  assumes fresh: "distances tm = []" "distances_normalized tm = []"
    and ne: "sorted_points tm \<noteq> []"
    and pos: "0 < last (integrate_loop (sorted_points tm) 0 [0])"
  shows "\<exists>tm1. integrate_distance tm = Inr tm1
           \<and> length (distances tm1) = length (sorted_points tm)
           \<and> length (distances_normalized tm1) = length (sorted_points tm)
           \<and> sorted (distances tm1)
           \<and> hd (distances_normalized tm1) = 0
           \<and> sorted (distances_normalized tm1)
           \<and> last (distances_normalized tm1) = 1"
proof -
  let ?tl = "integrate_loop (sorted_points tm) 0 []"
  let ?ds = "0 # ?tl"
  let ?t = "last ?ds"
  have ds: "integrate_loop (sorted_points tm) 0 [0] = ?ds"
    using integrate_loop_acc [of "sorted_points tm" 0 "[0]"] by simp
  have t: "0 < ?t" using pos unfolding ds .
  let ?tm1 = "tm\<lparr>distances := ?ds, distances_normalized := map (\<lambda>dist. dist / ?t) ?ds\<rparr>"
  have run: "integrate_distance tm = Inr ?tm1"
    using t by (simp add: integrate_distance_def fresh ds Let_def del: last.simps)
  from ne obtain a ps where sp: "sorted_points tm = a # ps" by (cases "sorted_points tm") auto
  have len: "length ?ds = length (sorted_points tm)"
    by (simp add: sp integrate_loop_length)
  have sd: "sorted ?ds" using integrate_loop_sorted [of a ps 0] by (simp add: sp)
  have sn: "sorted (map (\<lambda>dist. dist / ?t) ?ds)" using sd t by (rule sorted_divide)
  have "last (map (\<lambda>dist. dist / ?t) ?ds) = last ?ds / ?t"
    by (rule last_map) simp
  then have l: "last (map (\<lambda>dist. dist / ?t) ?ds) = 1"
    using t by simp
  show ?thesis
  proof (intro exI [of _ ?tm1] conjI)
    show "integrate_distance tm = Inr ?tm1" by (rule run)
    show "length (distances ?tm1) = length (sorted_points tm)" using len by simp
    show "length (distances_normalized ?tm1) = length (sorted_points tm)" using len by simp
    show "sorted (distances ?tm1)" using sd by simp
    show "hd (distances_normalized ?tm1) = 0" by simp
    show "sorted (distances_normalized ?tm1)" using sn by simp
    show "last (distances_normalized ?tm1) = 1" using l by simp
  qed
qed

lemma unit_square_run:
  "integrate_loop unit_square 0 [0] = [0, 1, 2, 3]"
  by (simp add: unit_square_def mk_point_def get_sqr_dist_def Let_def)

theorem integrate_distance_monotone_witness:
  "integrate_distance ((new_TrackMap Map.empty [])\<lparr>sorted_points := unit_square\<rparr>)
     = Inr ((new_TrackMap Map.empty [])\<lparr>sorted_points := unit_square,
              distances := [0, 1, 2, 3], distances_normalized := [0, 1/3, 2/3, 1]\<rparr>)
   \<and> sorted [0, 1/3, 2/3, 1 :: real]"
proof -
  let ?tm = "(new_TrackMap Map.empty [])\<lparr>sorted_points := unit_square\<rparr>"
  have a: "distances ?tm = []" "distances_normalized ?tm = []"
    by (simp_all add: new_TrackMap_def)
  have b: "sorted_points ?tm \<noteq> []" by (simp add: unit_square_def)
  have c: "0 < last (integrate_loop (sorted_points ?tm) 0 [0])"
    by (simp add: unit_square_run)
  from integrate_distance_monotone [OF a b c]
  obtain tm1 where "integrate_distance ?tm = Inr tm1" "sorted (distances_normalized tm1)"
    by blast
  then show ?thesis
    by (simp add: integrate_distance_def unit_square_run Let_def new_TrackMap_def)
qed

lemma integrate_loop_nth:
  "k < length ps \<Longrightarrow>
     integrate_loop (a # ps) c [] ! k
       = c + (\<Sum>i<Suc k. sqrt (get_sqr_dist ((a # ps) ! i) ((a # ps) ! Suc i)))"
proof (induction ps arbitrary: a c k)
  case Nil
  then show ?case by simp
next
  case (Cons b ps)
  let ?c = "c + sqrt (get_sqr_dist a b)"
  show ?case
  proof (cases k)
    case 0
    then show ?thesis unfolding integrate_loop_step by simp
  next
    case (Suc j)
    with Cons.prems have j: "j < length ps" by simp
    have "integrate_loop (a # b # ps) c [] ! k = integrate_loop (b # ps) ?c [] ! j"
      unfolding integrate_loop_step Suc by simp
    also have "\<dots> = ?c + (\<Sum>i<Suc j. sqrt (get_sqr_dist ((b # ps) ! i) ((b # ps) ! Suc i)))"
      using j by (rule Cons.IH)
    also have "\<dots> = c + (\<Sum>i<Suc k. sqrt (get_sqr_dist ((a # b # ps) ! i) ((a # b # ps) ! Suc i)))"
      unfolding Suc by (subst (2) sum.lessThan_Suc_shift) simp
    finally show ?thesis .
  qed
qed

text \<open>
  What the integration records: entry \<open>k\<close> of the cumulative distances is the sum of the
  first \<open>k\<close> segment lengths, each the square root of \<^verbatim>\<open>get_sqr_dist\<close>, and every
  normalised entry is the cumulative one divided by the last.
\<close>

lemma integrate_distance_running_sum:
  assumes fresh: "distances tm = []" "distances_normalized tm = []"
    and run: "integrate_distance tm = Inr tm1"
    and k: "k < length (sorted_points tm)"
  shows "distances tm1 ! k
           = (\<Sum>i<k. sqrt (get_sqr_dist (sorted_points tm ! i) (sorted_points tm ! Suc i)))"
    and "distances_normalized tm1 ! k = distances tm1 ! k / last (distances tm1)"
proof -
  let ?tl = "integrate_loop (sorted_points tm) 0 []"
  let ?ds = "0 # ?tl"
  have ds: "integrate_loop (sorted_points tm) 0 [0] = ?ds"
    using integrate_loop_acc [of "sorted_points tm" 0 "[0]"] by simp
  from run have d: "distances tm1 = ?ds"
    and nrm: "distances_normalized tm1 = map (\<lambda>dist. dist / last ?ds) ?ds"
    by (auto simp: integrate_distance_def fresh ds Let_def split: if_splits simp del: last.simps)
  from k obtain a ps where sp: "sorted_points tm = a # ps" by (cases "sorted_points tm") auto
  have len: "length ?ds = length (sorted_points tm)"
    by (simp add: sp integrate_loop_length)
  show "distances tm1 ! k
           = (\<Sum>i<k. sqrt (get_sqr_dist (sorted_points tm ! i) (sorted_points tm ! Suc i)))"
  proof (cases k)
    case 0
    then show ?thesis by (simp add: d)
  next
    case (Suc j)
    with k sp have "j < length ps" by simp
    from integrate_loop_nth [OF this, of a 0] show ?thesis by (simp add: d sp Suc)
  qed
  have "k < length ?ds" using k len by simp
  then show "distances_normalized tm1 ! k = distances tm1 ! k / last (distances tm1)"
    unfolding nrm d by (rule nth_map)
qed

text \<open>
  The specification's scenario: the unit square is sequenced into a loop of four points
  with the cumulative distances 0, 1, 2, 3 and the normalised distances 0, 1/3, 2/3, 1.
\<close>

lemma sort_points_unit_square:
  "sort_points (new_TrackMap Map.empty unit_square)
     = Inr ((new_TrackMap Map.empty [])\<lparr>sorted_points := unit_square,
              next_point := Some (mk_point 0 1)\<rparr>)"
  by (simp add: sort_points_def sort_loop.simps sort_step_def unit_square_def
      new_TrackMap_def mk_point_def get_sqr_dist_def pop_rest_def Let_def)

lemma generate_track_unit_square:
  "generate_track (new_TrackMap Map.empty unit_square)
     = Inr \<lparr>track_X = [0, 1, 1, 0], track_Y = [0, 0, 1, 1],
            track_Distance = [0, 1, 2, 3], track_Normalized = [0, 1/3, 2/3, 1]\<rparr>"
proof -
  have "integrate_distance ((new_TrackMap Map.empty [])\<lparr>sorted_points := unit_square,
              next_point := Some (mk_point 0 1)\<rparr>)
          = Inr ((new_TrackMap Map.empty [])\<lparr>sorted_points := unit_square,
              next_point := Some (mk_point 0 1),
              distances := [0, 1, 2, 3], distances_normalized := [0, 1/3, 2/3, 1]\<rparr>)"
    by (simp add: integrate_distance_def unit_square_run Let_def new_TrackMap_def)
  then show ?thesis
    by (simp add: generate_track_def sort_points_unit_square make_frame_def Let_def)
       (simp add: unit_square_def mk_point_def new_TrackMap_def)
qed

text \<open>
  Claim C1 (does not hold on the code). The segment length is the square root of
  \<^verbatim>\<open>get_sqr_dist\<close>, which is \<open>\<bar>dx\<bar> + \<bar>dy\<bar>\<close> and not the squared distance its
  docstring announces. Between (0, 0) and (3, 4) the code records the cumulative distance
  \<open>sqrt 7\<close>, where the Euclidean segment length is \<open>sqrt (3\<^sup>2 + 4\<^sup>2) = 5\<close>.
\<close>

theorem integrate_distance_l1_root:
  "integrate_distance ((new_TrackMap Map.empty [])\<lparr>sorted_points := [mk_point 0 0, mk_point 3 4]\<rparr>)
     = Inr ((new_TrackMap Map.empty [])\<lparr>sorted_points := [mk_point 0 0, mk_point 3 4],
              distances := [0, sqrt 7], distances_normalized := [0, 1]\<rparr>)
   \<and> sqrt 7 \<noteq> sqrt ((3 - 0)\<^sup>2 + (4 - 0)\<^sup>2)"
proof -
  have "sqrt 25 = 5" using real_sqrt_abs [of 5] by simp
  then have "sqrt 7 \<noteq> 5" using real_sqrt_eq_iff [of 7 25] by simp
  then show ?thesis
    by (simp add: integrate_distance_def mk_point_def get_sqr_dist_def Let_def new_TrackMap_def)
qed

section \<open>The two sequencing implementations\<close>

text \<open>
  The sequencing of \<^verbatim>\<open>experimental.py\<close> is that of \<^verbatim>\<open>testing.py\<close> followed by
  the closing test on the point left over.
\<close>

lemma sort_points_extends_testing:
  assumes "sort_points_testing tm = Inr tt"
  shows "\<exists>np. next_point tt = Some np \<and>
           sort_points tm =
             (if sorted_points tt = [] then Inl IndexError
              else if get_sqr_dist np (last (sorted_points tt)) \<le> 200
              then Inr (tt\<lparr>sorted_points := sorted_points tt @ [np]\<rparr>)
              else Inr tt)"
  using assms
  by (cases "unsorted_points tm")
     (auto simp: sort_points_def sort_points_testing_def Let_def)

text \<open>
  Claim C10 (does not hold on the code). On the two points (0, 0) and (1, 0) the
  sequencing of \<^verbatim>\<open>experimental.py\<close> sorts both points, while that of
  \<^verbatim>\<open>testing.py\<close> leaves the last point in \<^verbatim>\<open>_next_point\<close>: it is neither
  sorted nor excluded.
\<close>

theorem sort_points_testing_drops_last:
  "sort_points (new_TrackMap Map.empty [mk_point 0 0, mk_point 1 0])
     = Inr ((new_TrackMap Map.empty [])\<lparr>sorted_points := [mk_point 0 0, mk_point 1 0],
              next_point := Some (mk_point 1 0)\<rparr>)
   \<and> sort_points_testing (new_TrackMap Map.empty [mk_point 0 0, mk_point 1 0])
     = Inr ((new_TrackMap Map.empty [])\<lparr>sorted_points := [mk_point 0 0],
              next_point := Some (mk_point 1 0)\<rparr>)"
  by (simp add: sort_points_def sort_points_testing_def sort_loop.simps sort_step_def
      new_TrackMap_def mk_point_def get_sqr_dist_def pop_rest_def Let_def)

section \<open>Properties of the lookups\<close>

lemma argsort_props:
  "length (argsort ks) = length ks" "set (argsort ks) = {0..<length ks}"
  "distinct (argsort ks)" "sorted (map (\<lambda>i. ks ! i) (argsort ks))"
  by (simp_all add: argsort_def)

text \<open>The first two positions of \<open>argsort\<close> hold the two smallest values.\<close>

lemma argsort_first_two:
  assumes n: "2 \<le> length ks"
  defines "i \<equiv> argsort ks ! 0" and "j \<equiv> argsort ks ! 1"
  shows "take 2 (argsort ks) = [i, j]" "i < length ks" "j < length ks" "i \<noteq> j"
    "\<forall>k < length ks. ks ! i \<le> ks ! k"
    "\<forall>k < length ks. k \<noteq> i \<longrightarrow> ks ! j \<le> ks ! k"
proof -
  let ?s = "argsort ks"
  have len: "length ?s = length ks" by (rule argsort_props)
  have l2: "2 \<le> length ?s" using n len by simp
  then obtain a b rest where s: "?s = a # b # rest"
    by (cases ?s; cases "tl ?s") auto
  show "take 2 ?s = [i, j]" unfolding i_def j_def s by (simp add: numeral_2_eq_2)
  have "i \<in> set ?s" "j \<in> set ?s" unfolding i_def j_def s by simp_all
  then show "i < length ks" "j < length ks" by (simp_all add: argsort_props)
  have d: "distinct ?s" by (rule argsort_props)
  show "i \<noteq> j" using d unfolding i_def j_def s by simp
  have srt: "sorted (map (\<lambda>i. ks ! i) ?s)" by (rule argsort_props)
  have mono: "\<And>m m'. m \<le> m' \<Longrightarrow> m' < length ?s \<Longrightarrow> ks ! (?s ! m) \<le> ks ! (?s ! m')"
  proof -
    fix m m' assume "m \<le> m'" "m' < length ?s"
    with sorted_nth_mono [OF srt, of m m'] show "ks ! (?s ! m) \<le> ks ! (?s ! m')" by simp
  qed
  have pos: "\<And>k. k < length ks \<Longrightarrow> \<exists>m < length ?s. ?s ! m = k"
  proof -
    fix k assume "k < length ks"
    then have "k \<in> set ?s" by (simp add: argsort_props)
    then show "\<exists>m < length ?s. ?s ! m = k" by (simp add: in_set_conv_nth)
  qed
  show "\<forall>k < length ks. ks ! i \<le> ks ! k"
  proof (intro allI impI)
    fix k assume "k < length ks"
    from pos [OF this] obtain m where m: "m < length ?s" "?s ! m = k" by blast
    from mono [of 0 m] m show "ks ! i \<le> ks ! k" unfolding i_def by simp
  qed
  show "\<forall>k < length ks. k \<noteq> i \<longrightarrow> ks ! j \<le> ks ! k"
  proof (intro allI impI)
    fix k assume "k < length ks" and ki: "k \<noteq> i"
    from pos [OF this(1)] obtain m where m: "m < length ?s" "?s ! m = k" by blast
    have "m \<noteq> 0"
    proof
      assume "m = 0"
      with m(2) have "k = i" unfolding i_def by simp
      with ki show False by simp
    qed
    then have "1 \<le> m" by simp
    from mono [OF this m(1)] m show "ks ! j \<le> ks ! k" unfolding j_def by simp
  qed
qed


text \<open>
  Claim C8. For a driver with at least two samples with distinct timestamps, the lookup
  returns. It interpolates between two different samples \<open>i\<close> and \<open>j\<close>: no sample is
  nearer to the query time than sample \<open>i\<close>, and no other sample is nearer than sample
  \<open>j\<close>. The result is the linear interpolation of x and y by the time fraction, and it
  is the position of a selected sample when the query time is that sample's timestamp. The
  lookup is a function of the track map, the driver and the query time, so equal inputs
  give equal results.
\<close>

theorem interpolate_pos_from_time_nearest:
  assumes rows: "raw_pos_data tm drv = Some rows"
    and len: "2 \<le> length rows"
    and dist: "distinct (map Date rows)"
  shows "\<exists>i j. i < length rows \<and> j < length rows \<and> i \<noteq> j
           \<and> (\<forall>k < length rows. \<bar>Date (rows ! i) - q\<bar> \<le> \<bar>Date (rows ! k) - q\<bar>)
           \<and> (\<forall>k < length rows. k \<noteq> i \<longrightarrow> \<bar>Date (rows ! j) - q\<bar> \<le> \<bar>Date (rows ! k) - q\<bar>)
           \<and> interpolate_pos_from_time tm drv q =
               Inr (mk_point
                 (X (rows ! i) + (X (rows ! j) - X (rows ! i)) * (q - Date (rows ! i))
                                   / (Date (rows ! j) - Date (rows ! i)))
                 (Y (rows ! i) + (Y (rows ! j) - Y (rows ! i)) * (q - Date (rows ! i))
                                   / (Date (rows ! j) - Date (rows ! i))))
           \<and> (q = Date (rows ! i) \<longrightarrow>
                interpolate_pos_from_time tm drv q = Inr (mk_point (X (rows ! i)) (Y (rows ! i))))
           \<and> (q = Date (rows ! j) \<longrightarrow>
                interpolate_pos_from_time tm drv q = Inr (mk_point (X (rows ! j)) (Y (rows ! j))))"
proof -
  let ?ks = "map (\<lambda>r. \<bar>Date r - q\<bar>) rows"
  let ?i = "argsort ?ks ! 0" and ?j = "argsort ?ks ! 1"
  have n: "2 \<le> length ?ks" using len by simp
  note f = argsort_first_two [OF n]
  have i: "?i < length rows" and j: "?j < length rows" using f(2,3) by simp_all
  have ne: "?i \<noteq> ?j" by (rule f(4))
  have dne: "Date (rows ! ?j) \<noteq> Date (rows ! ?i)"
  proof
    assume "Date (rows ! ?j) = Date (rows ! ?i)"
    then have "map Date rows ! ?j = map Date rows ! ?i" using i j by simp
    moreover have "?j < length (map Date rows)" "?i < length (map Date rows)"
      using i j by simp_all
    ultimately have "?j = ?i" using dist nth_eq_iff_index_eq by blast
    with ne show False by simp
  qed
  have m1: "\<forall>k < length rows. \<bar>Date (rows ! ?i) - q\<bar> \<le> \<bar>Date (rows ! k) - q\<bar>"
  proof (intro allI impI)
    fix k assume k: "k < length rows"
    with f(5) have "?ks ! ?i \<le> ?ks ! k" by simp
    then show "\<bar>Date (rows ! ?i) - q\<bar> \<le> \<bar>Date (rows ! k) - q\<bar>" using i k by simp
  qed
  have m2: "\<forall>k < length rows. k \<noteq> ?i \<longrightarrow> \<bar>Date (rows ! ?j) - q\<bar> \<le> \<bar>Date (rows ! k) - q\<bar>"
  proof (intro allI impI)
    fix k assume k: "k < length rows" and ki: "k \<noteq> ?i"
    with f(6) have "?ks ! ?j \<le> ?ks ! k" by simp
    then show "\<bar>Date (rows ! ?j) - q\<bar> \<le> \<bar>Date (rows ! k) - q\<bar>" using j k by simp
  qed
  have run: "interpolate_pos_from_time tm drv q =
               Inr (mk_point
                 (X (rows ! ?i) + (X (rows ! ?j) - X (rows ! ?i)) * (q - Date (rows ! ?i))
                                   / (Date (rows ! ?j) - Date (rows ! ?i)))
                 (Y (rows ! ?i) + (Y (rows ! ?j) - Y (rows ! ?i)) * (q - Date (rows ! ?i))
                                   / (Date (rows ! ?j) - Date (rows ! ?i))))"
    using dne by (simp add: interpolate_pos_from_time_def rows f(1) Let_def)
  have e1: "q = Date (rows ! ?i) \<longrightarrow>
              interpolate_pos_from_time tm drv q = Inr (mk_point (X (rows ! ?i)) (Y (rows ! ?i)))"
    unfolding run by simp
  have e2: "q = Date (rows ! ?j) \<longrightarrow>
              interpolate_pos_from_time tm drv q = Inr (mk_point (X (rows ! ?j)) (Y (rows ! ?j)))"
    unfolding run using dne by simp
  show ?thesis
    using i j ne m1 m2 run e1 e2 by blast
qed


theorem interpolate_pos_from_time_nearest_witness:
  "raw_pos_data (new_TrackMap [1 \<mapsto> three_samples] []) 1 = Some three_samples
   \<and> 2 \<le> length three_samples
   \<and> distinct (map Date three_samples)
   \<and> (\<exists>p. interpolate_pos_from_time (new_TrackMap [1 \<mapsto> three_samples] []) 1 3 = Inr p)
   \<and> interpolate_pos_from_time (new_TrackMap [1 \<mapsto> three_samples] []) 1 3
       = Inr (mk_point 15 4)
   \<and> interpolate_pos_from_time (new_TrackMap [1 \<mapsto> three_samples] []) 1 2
       = Inr (mk_point 10 4)"
proof -
  let ?tm = "new_TrackMap [1 \<mapsto> three_samples] []"
  have a: "raw_pos_data ?tm 1 = Some three_samples" by (simp add: new_TrackMap_def)
  have b: "2 \<le> length three_samples" by (simp add: three_samples_def)
  have c: "distinct (map Date three_samples)" by (simp add: three_samples_def)
  from interpolate_pos_from_time_nearest [OF a b c, of 3]
  have d: "\<exists>p. interpolate_pos_from_time ?tm 1 3 = Inr p" by blast
  have e: "interpolate_pos_from_time ?tm 1 3 = Inr (mk_point 15 4)"
    by (simp add: interpolate_pos_from_time_def argsort_def new_TrackMap_def three_samples_def
        mk_point_def Let_def upt_rec numeral_2_eq_2)
  have f: "interpolate_pos_from_time ?tm 1 2 = Inr (mk_point 10 4)"
    by (simp add: interpolate_pos_from_time_def argsort_def new_TrackMap_def three_samples_def
        mk_point_def Let_def upt_rec numeral_2_eq_2)
  show ?thesis using a b c d e f by simp
qed

text \<open>The inverse lookup raises on every input.\<close>

lemma get_time_from_pos_never_returns: "get_time_from_pos tm drv x y a b \<noteq> Inr r"
  by (simp add: get_time_from_pos_def TrackPoint_getattr_def split: option.splits sum.splits)

text \<open>
  Claim C9 (does not hold on the code). With the driver's only sample at the track point
  (0, 0) and date 5, inside the range from 0 to 10, the claim expects the date 5; the code
  raises \<^verbatim>\<open>AttributeError\<close> when it reads \<^verbatim>\<open>closest_track_pnt.X\<close>.
\<close>

theorem get_time_from_pos_raises:
  "get_time_from_pos
     ((new_TrackMap [1 \<mapsto> [\<lparr>Date = 5, X = 0, Y = 0\<rparr>]] [])\<lparr>sorted_points := [mk_point 0 0]\<rparr>)
     1 0 0 0 10 = Inl AttributeError"
  by (simp add: get_time_from_pos_def get_closest_point_def TrackPoint_getattr_def
      new_TrackMap_def Let_def)

section \<open>Properties of the start/finish condition\<close>

lemma partition_loop_acc:
  "partition_loop c rows (pd, nd, pp, np) =
     (pd @ map (\<lambda>r. get_sqr_dist c (row_point r)) (window_before c rows),
      nd @ map (\<lambda>r. get_sqr_dist c (row_point r)) (window_after c rows),
      pp @ map row_point (window_before c rows),
      np @ map row_point (window_after c rows))"
proof (induction rows arbitrary: pd nd pp np)
  case Nil
  show ?case by (simp add: window_before_def window_after_def)
next
  case (Cons r rows)
  show ?case
  proof (cases "X r < px c")
    case True
    then show ?thesis
      by (simp add: Cons.IH Let_def row_point_def window_before_def window_after_def)
  next
    case False
    then show ?thesis
      by (simp add: Cons.IH Let_def row_point_def window_before_def window_after_def
          not_less)
  qed
qed

lemma nearest_row:
  assumes "rs \<noteq> []"
  shows "min_index (map (\<lambda>r. get_sqr_dist c (row_point r)) rs) < length rs"
    "\<forall>q \<in> set rs.
       get_sqr_dist c (row_point (rs ! min_index (map (\<lambda>r. get_sqr_dist c (row_point r)) rs)))
         \<le> get_sqr_dist c (row_point q)"
proof -
  let ?ds = "map (\<lambda>r. get_sqr_dist c (row_point r)) rs"
  have ne: "?ds \<noteq> []" using assms by simp
  show i: "min_index ?ds < length rs"
    using min_index_props(1) [OF ne] by (simp add: min_index_def)
  have "\<forall>v \<in> set ?ds. ?ds ! min_index ?ds \<le> v"
    using min_index_props(3) [OF ne] by (simp add: min_index_def)
  then show "\<forall>q \<in> set rs. get_sqr_dist c (row_point (rs ! min_index ?ds))
                \<le> get_sqr_dist c (row_point q)"
    using i by simp
qed

text \<open>
  Claim C7. \<^verbatim>\<open>for_driver\<close> runs the lap loop over all laps of the driver. A skipped lap
  leaves the results as they are. For the other laps the samples of the window are split
  into those with \<open>x < candidate.x\<close> and those with \<open>x \<ge> candidate.x\<close>; when a side is
  empty the loop goes on with the next lap and unchanged results, and no error is raised
  for this lap; when both sides are non-empty the sample nearest to the candidate is taken
  from each side and the crossing time is interpolated between the two.
\<close>

theorem for_driver_lap_sides:
  assumes pos: "data_pos data drv = Some rows"
  shows "for_driver data drv c =
           for_driver_loop data drv c
             (max_laps (filter (\<lambda>lap. Driver lap = drv) (data_laps data)))
             (filter (\<lambda>lap. Driver lap = drv) (data_laps data)) ([], [])
       \<and> (lap_skipped last_lap lap \<longrightarrow>
            for_driver_loop data drv c last_lap (lap # laps) (res_x, res_y)
              = for_driver_loop data drv c last_lap laps (res_x, res_y))
       \<and> partition_loop c (pos_window data lap rows) ([], [], [], []) =
            (map (\<lambda>r. get_sqr_dist c (row_point r)) (window_before c (pos_window data lap rows)),
             map (\<lambda>r. get_sqr_dist c (row_point r)) (window_after c (pos_window data lap rows)),
             map row_point (window_before c (pos_window data lap rows)),
             map row_point (window_after c (pos_window data lap rows)))
       \<and> (\<not> lap_skipped last_lap lap \<and>
            (window_before c (pos_window data lap rows) = [] \<or>
             window_after c (pos_window data lap rows) = []) \<longrightarrow>
            for_driver_loop data drv c last_lap (lap # laps) (res_x, res_y)
              = for_driver_loop data drv c last_lap laps (res_x, res_y))
       \<and> (\<not> lap_skipped last_lap lap \<and>
            window_before c (pos_window data lap rows) \<noteq> [] \<and>
            window_after c (pos_window data lap rows) \<noteq> [] \<longrightarrow>
            (\<exists>r_a r_b.
               r_a \<in> set (window_before c (pos_window data lap rows))
             \<and> r_b \<in> set (window_after c (pos_window data lap rows))
             \<and> (\<forall>q \<in> set (window_before c (pos_window data lap rows)).
                   get_sqr_dist c (row_point r_a) \<le> get_sqr_dist c (row_point q))
             \<and> (\<forall>q \<in> set (window_after c (pos_window data lap rows)).
                   get_sqr_dist c (row_point r_b) \<le> get_sqr_dist c (row_point q))
             \<and> for_driver_loop data drv c last_lap (lap # laps) (res_x, res_y) =
                 (case interpolate_pos_from_time (data_track data) drv
                         (Date r_a + (Date r_b - Date r_a) * (px c - X r_a) / (X r_b - X r_a)
                          - LastLapTime lap) of
                    Inl e \<Rightarrow> Inl e
                  | Inr p \<Rightarrow>
                      for_driver_loop data drv c last_lap laps
                        (res_x @ [px p], res_y @ [py p]))))"
proof -
  let ?w = "pos_window data lap rows"
  let ?B = "window_before c ?w" and ?A = "window_after c ?w"
  let ?d = "\<lambda>r. get_sqr_dist c (row_point r)"
  have part: "partition_loop c ?w ([], [], [], []) = (map ?d ?B, map ?d ?A, map row_point ?B, map row_point ?A)"
    using partition_loop_acc [of c ?w "[]" "[]" "[]" "[]"] by simp
  have top: "for_driver data drv c =
           for_driver_loop data drv c
             (max_laps (filter (\<lambda>lap. Driver lap = drv) (data_laps data)))
             (filter (\<lambda>lap. Driver lap = drv) (data_laps data)) ([], [])"
    by (simp add: for_driver_def Let_def)
  have skip: "lap_skipped last_lap lap \<longrightarrow>
            for_driver_loop data drv c last_lap (lap # laps) (res_x, res_y)
              = for_driver_loop data drv c last_lap laps (res_x, res_y)"
    by simp
  have empty: "\<not> lap_skipped last_lap lap \<and> (?B = [] \<or> ?A = []) \<longrightarrow>
            for_driver_loop data drv c last_lap (lap # laps) (res_x, res_y)
              = for_driver_loop data drv c last_lap laps (res_x, res_y)"
    by (auto simp: lap_start_point_def pos part)
  have both: "\<not> lap_skipped last_lap lap \<and> ?B \<noteq> [] \<and> ?A \<noteq> [] \<longrightarrow>
            (\<exists>r_a r_b. r_a \<in> set ?B \<and> r_b \<in> set ?A
             \<and> (\<forall>q \<in> set ?B. ?d r_a \<le> ?d q) \<and> (\<forall>q \<in> set ?A. ?d r_b \<le> ?d q)
             \<and> for_driver_loop data drv c last_lap (lap # laps) (res_x, res_y) =
                 (case interpolate_pos_from_time (data_track data) drv
                         (Date r_a + (Date r_b - Date r_a) * (px c - X r_a) / (X r_b - X r_a)
                          - LastLapTime lap) of
                    Inl e \<Rightarrow> Inl e
                  | Inr p \<Rightarrow>
                      for_driver_loop data drv c last_lap laps
                        (res_x @ [px p], res_y @ [py p])))"
  proof (intro impI, elim conjE)
    assume us: "\<not> lap_skipped last_lap lap" and B: "?B \<noteq> []" and A: "?A \<noteq> []"
    let ?ia = "min_index (map ?d ?B)" and ?ib = "min_index (map ?d ?A)"
    let ?ra = "?B ! ?ia" and ?rb = "?A ! ?ib"
    note na = nearest_row [OF B, of c] and nb = nearest_row [OF A, of c]
    have ma: "?ra \<in> set ?B" and mb: "?rb \<in> set ?A" using na(1) nb(1) by simp_all
    have xa: "X ?ra < px c" using ma by (simp add: window_before_def)
    have xb: "px c \<le> X ?rb" using mb by (simp add: window_after_def)
    have nz: "X ?rb - X ?ra \<noteq> 0" using xa xb by simp
    have lsp: "lap_start_point data drv c lap =
                 (case interpolate_pos_from_time (data_track data) drv
                         (Date ?ra + (Date ?rb - Date ?ra) * (px c - X ?ra) / (X ?rb - X ?ra)
                          - LastLapTime lap) of
                    Inl e \<Rightarrow> Inl e | Inr p \<Rightarrow> Inr (Some p))"
      using A B na(1) nb(1) nz
      by (simp add: lap_start_point_def pos part Let_def row_point_def)
    have run: "for_driver_loop data drv c last_lap (lap # laps) (res_x, res_y) =
                 (case interpolate_pos_from_time (data_track data) drv
                         (Date ?ra + (Date ?rb - Date ?ra) * (px c - X ?ra) / (X ?rb - X ?ra)
                          - LastLapTime lap) of
                    Inl e \<Rightarrow> Inl e
                  | Inr p \<Rightarrow>
                      for_driver_loop data drv c last_lap laps
                        (res_x @ [px p], res_y @ [py p]))"
      using us by (simp add: lsp split: sum.splits)
    show "\<exists>r_a r_b. r_a \<in> set ?B \<and> r_b \<in> set ?A
             \<and> (\<forall>q \<in> set ?B. ?d r_a \<le> ?d q) \<and> (\<forall>q \<in> set ?A. ?d r_b \<le> ?d q)
             \<and> for_driver_loop data drv c last_lap (lap # laps) (res_x, res_y) =
                 (case interpolate_pos_from_time (data_track data) drv
                         (Date r_a + (Date r_b - Date r_a) * (px c - X r_a) / (X r_b - X r_a)
                          - LastLapTime lap) of
                    Inl e \<Rightarrow> Inl e
                  | Inr p \<Rightarrow>
                      for_driver_loop data drv c last_lap laps
                        (res_x @ [px p], res_y @ [py p]))"
      using ma mb na(2) nb(2) run by blast
  qed
  show ?thesis using top skip part empty both by (intro conjI)
qed

theorem for_driver_lap_sides_witness:
  "data_pos one_sided_data 1 = Some one_sided_rows
   \<and> \<not> lap_skipped (Some 3) usable_lap
   \<and> window_before (mk_point 10 0) (pos_window one_sided_data usable_lap one_sided_rows)
       = [\<lparr>Date = 95, X = 0, Y = 0\<rparr>]
   \<and> window_after (mk_point 10 0) (pos_window one_sided_data usable_lap one_sided_rows) = []
   \<and> for_driver_loop one_sided_data 1 (mk_point 10 0) (Some 3) [usable_lap, final_lap] ([], [])
       = for_driver_loop one_sided_data 1 (mk_point 10 0) (Some 3) [final_lap] ([], [])
   \<and> for_driver one_sided_data 1 (mk_point 10 0) = Inr ([], [])"
proof -
  have p: "data_pos one_sided_data 1 = Some one_sided_rows" by (simp add: one_sided_data_def)
  have u: "\<not> lap_skipped (Some 3) usable_lap" by (simp add: lap_skipped_def usable_lap_def)
  have b: "window_before (mk_point 10 0) (pos_window one_sided_data usable_lap one_sided_rows)
             = [\<lparr>Date = 95, X = 0, Y = 0\<rparr>]"
    by (simp add: window_before_def pos_window_def one_sided_data_def usable_lap_def
        one_sided_rows_def mk_point_def Let_def)
  have a: "window_after (mk_point 10 0) (pos_window one_sided_data usable_lap one_sided_rows) = []"
    by (simp add: window_after_def pos_window_def one_sided_data_def usable_lap_def
        one_sided_rows_def mk_point_def Let_def)
  from for_driver_lap_sides [OF p, of "mk_point 10 0" "Some 3" usable_lap "[final_lap]" "[]" "[]"] u a
  have l: "for_driver_loop one_sided_data 1 (mk_point 10 0) (Some 3) [usable_lap, final_lap] ([], [])
             = for_driver_loop one_sided_data 1 (mk_point 10 0) (Some 3) [final_lap] ([], [])"
    by blast
  have s1: "lap_skipped (Some 3) first_lap" by (simp add: lap_skipped_def first_lap_def)
  have s3: "lap_skipped (Some 3) final_lap" by (simp add: lap_skipped_def final_lap_def)
  have m: "max_laps [first_lap, usable_lap, final_lap] = Some 3"
    by (simp add: first_lap_def usable_lap_def final_lap_def)
  have d: "filter (\<lambda>lap. Driver lap = 1) (data_laps one_sided_data)
             = [first_lap, usable_lap, final_lap]"
    by (simp add: one_sided_data_def first_lap_def usable_lap_def final_lap_def)
  have "for_driver one_sided_data 1 (mk_point 10 0)
          = for_driver_loop one_sided_data 1 (mk_point 10 0) (Some 3)
              [first_lap, usable_lap, final_lap] ([], [])"
    by (simp only: for_driver_def Let_def d m)
  also have "\<dots> = for_driver_loop one_sided_data 1 (mk_point 10 0) (Some 3)
              [usable_lap, final_lap] ([], [])"
    using s1 by simp
  also have "\<dots> = for_driver_loop one_sided_data 1 (mk_point 10 0) (Some 3) [final_lap] ([], [])"
    by (rule l)
  also have "\<dots> = Inr ([], [])" using s3 by simp
  finally have f: "for_driver one_sided_data 1 (mk_point 10 0) = Inr ([], [])" .
  show ?thesis using p u b a l f by simp
qed

section \<open>Properties of the idle barrier\<close>

lemma sum_list_update_add:
  fixes g :: "'a \<Rightarrow> 'b::comm_monoid_add"
  shows "i < length xs \<Longrightarrow> g w = g (xs ! i) + b \<Longrightarrow>
           sum_list (map g (xs[i := w])) = sum_list (map g xs) + b"
proof (induction xs arbitrary: i)
  case Nil
  then show ?case by simp
next
  case (Cons a xs)
  show ?case
  proof (cases i)
    case 0
    then show ?thesis using Cons.prems by (simp add: ac_simps)
  next
    case (Suc j)
    then show ?thesis using Cons.prems Cons.IH [of j] by (simp add: ac_simps)
  qed
qed

lemma sum_list_update_sub:
  fixes g :: "'a \<Rightarrow> 'b::comm_monoid_add"
  shows "i < length xs \<Longrightarrow> g (xs ! i) = g w + b \<Longrightarrow>
           sum_list (map g (xs[i := w])) + b = sum_list (map g xs)"
proof (induction xs arbitrary: i)
  case Nil
  then show ?case by simp
next
  case (Cons a xs)
  show ?case
  proof (cases i)
    case 0
    then show ?thesis using Cons.prems by (simp add: ac_simps)
  next
    case (Suc j)
    with Cons.prems have "sum_list (map g (xs[j := w])) + b = sum_list (map g xs)"
      by (intro Cons.IH) simp_all
    then have "g a + (sum_list (map g (xs[j := w])) + b) = g a + sum_list (map g xs)"
      by simp
    then show ?thesis using Suc by (simp add: add.assoc)
  qed
qed

lemma sum_list_update_same:
  fixes g :: "'a \<Rightarrow> 'b::comm_monoid_add"
  shows "i < length xs \<Longrightarrow> g w = g (xs ! i) \<Longrightarrow>
           sum_list (map g (xs[i := w])) = sum_list (map g xs)"
  using sum_list_update_add [of i xs g w 0] by simp

lemma list_all_idle_works_first: "list_all is_idle q \<Longrightarrow> works_first q"
  by (cases q rule: works_first.cases) simp_all

text \<open>The cases of a step, as rules.\<close>

lemma pool_step_cases:
  assumes "pool_step conds n a s = Some s1"
  obtains
    (take) i r c d p q where "a = Worker i" "i < length (workers s)" "workers s ! i = Ready r"
      "task_queue s = Work c d p # q"
      "s1 = s\<lparr>task_queue := q, workers := (workers s)[i := Busy r c d p]\<rparr>"
  | (idle) i r q where "a = Worker i" "i < length (workers s)" "workers s ! i = Ready r"
      "task_queue s = IdleCmd # q"
      "s1 = s\<lparr>task_queue := q, idle_queue := idle_queue s @ [r],
               workers := (workers s)[i := Waiting]\<rparr>"
  | (crash) i r c d p e where "a = Worker i" "i < length (workers s)"
      "workers s ! i = Busy r c d p" "conds c d p = Inl e"
      "s1 = s\<lparr>workers := (workers s)[i := Crashed]\<rparr>"
  | (finish) i r c d p data where "a = Worker i" "i < length (workers s)"
      "workers s ! i = Busy r c d p" "conds c d p = Inr data"
      "s1 = s\<lparr>workers := (workers s)[i := Ready (add_result r c data)]\<rparr>"
  | (resume) i k where "a = Worker i" "i < length (workers s)" "workers s ! i = Waiting"
      "resume_queue s = Suc k"
      "s1 = s\<lparr>resume_queue := k, workers := (workers s)[i := Ready Map.empty]\<rparr>"
  | (collect) res rest where "a = Coordinator" "idle_count s \<noteq> n" "idle_queue s = res # rest"
      "s1 = s\<lparr>idle_queue := rest, merged := merge_report (merged s) res,
               idle_count := Suc (idle_count s)\<rparr>"
proof (cases a)
  case (Worker i)
  with assms have ws: "worker_step conds i s = Some s1" by (simp add: pool_step_def)
  then have i: "i < length (workers s)"
    by (simp add: worker_step_def split: if_splits)
  show ?thesis
  proof (cases "workers s ! i")
    case (Ready r)
    show ?thesis
    proof (cases "task_queue s")
      case Nil
      with ws i Ready show ?thesis by (simp add: worker_step_def)
    next
      case (Cons t q)
      show ?thesis
      proof (cases t)
        case (Work c d p)
        with ws i Ready Cons have "s1 = s\<lparr>task_queue := q, workers := (workers s)[i := Busy r c d p]\<rparr>"
          by (simp add: worker_step_def)
        with Worker i Ready Cons Work show ?thesis by (intro take) simp_all
      next
        case IdleCmd
        with ws i Ready Cons have "s1 = s\<lparr>task_queue := q, idle_queue := idle_queue s @ [r],
               workers := (workers s)[i := Waiting]\<rparr>"
          by (simp add: worker_step_def)
        with Worker i Ready Cons IdleCmd show ?thesis by (intro idle) simp_all
      qed
    qed
  next
    case (Busy r c d p)
    show ?thesis
    proof (cases "conds c d p")
      case (Inl e)
      with ws i Busy have "s1 = s\<lparr>workers := (workers s)[i := Crashed]\<rparr>"
        by (simp add: worker_step_def)
      with Worker i Busy Inl show ?thesis by (intro crash) simp_all
    next
      case (Inr data)
      with ws i Busy have "s1 = s\<lparr>workers := (workers s)[i := Ready (add_result r c data)]\<rparr>"
        by (simp add: worker_step_def)
      with Worker i Busy Inr show ?thesis by (intro finish) simp_all
    qed
  next
    case Waiting
    show ?thesis
    proof (cases "resume_queue s")
      case 0
      with ws i Waiting show ?thesis by (simp add: worker_step_def)
    next
      case (Suc k)
      with ws i Waiting have "s1 = s\<lparr>resume_queue := k, workers := (workers s)[i := Ready Map.empty]\<rparr>"
        by (simp add: worker_step_def)
      with Worker i Waiting Suc show ?thesis by (intro resume) simp_all
    qed
  next
    case Crashed
    with ws i show ?thesis by (simp add: worker_step_def)
  qed
next
  case Coordinator
  with assms have cs: "coordinator_step n s = Some s1" by (simp add: pool_step_def)
  then have ne: "idle_count s \<noteq> n" by (simp add: coordinator_step_def split: if_splits)
  show ?thesis
  proof (cases "idle_queue s")
    case Nil
    with cs ne show ?thesis by (simp add: coordinator_step_def)
  next
    case (Cons res rest)
    with cs ne have "s1 = s\<lparr>idle_queue := rest, merged := merge_report (merged s) res,
               idle_count := Suc (idle_count s)\<rparr>"
      by (simp add: coordinator_step_def)
    with Coordinator ne Cons show ?thesis by (intro collect) simp_all
  qed
qed

lemma pool_inv_step:
  assumes inv: "pool_inv n s" and step: "pool_step conds n a s = Some s1"
  shows "pool_inv n s1"
  using step
proof (cases rule: pool_step_cases)
  case (take i r c d p q)
  have a: "sum_list (map active_w ((workers s)[i := Busy r c d p])) = sum_list (map active_w (workers s))"
    using take by (intro sum_list_update_same) simp_all
  have b: "sum_list (map crashed_w ((workers s)[i := Busy r c d p])) = sum_list (map crashed_w (workers s))"
    using take by (intro sum_list_update_same) simp_all
  show ?thesis using inv take a b by (auto simp: pool_inv_def idles_def)
next
  case (idle i r q)
  have a: "sum_list (map active_w ((workers s)[i := Waiting])) + 1 = sum_list (map active_w (workers s))"
    using idle by (intro sum_list_update_sub) simp_all
  have b: "sum_list (map crashed_w ((workers s)[i := Waiting])) = sum_list (map crashed_w (workers s))"
    using idle by (intro sum_list_update_same) simp_all
  show ?thesis using inv idle a b
    by (auto simp: pool_inv_def idles_def list_all_idle_works_first)
next
  case (crash i r c d p e)
  have a: "sum_list (map active_w ((workers s)[i := Crashed])) + 1 = sum_list (map active_w (workers s))"
    using crash by (intro sum_list_update_sub) simp_all
  have b: "sum_list (map crashed_w ((workers s)[i := Crashed])) = sum_list (map crashed_w (workers s)) + 1"
    using crash by (intro sum_list_update_add) simp_all
  show ?thesis using inv crash a b by (auto simp: pool_inv_def)
next
  case (finish i r c d p data)
  have a: "sum_list (map active_w ((workers s)[i := Ready (add_result r c data)]))
             = sum_list (map active_w (workers s))"
    using finish by (intro sum_list_update_same) simp_all
  have b: "sum_list (map crashed_w ((workers s)[i := Ready (add_result r c data)]))
             = sum_list (map crashed_w (workers s))"
    using finish by (intro sum_list_update_same) simp_all
  show ?thesis using inv finish a b by (auto simp: pool_inv_def)
next
  case (resume i k)
  have a: "sum_list (map active_w ((workers s)[i := Ready Map.empty]))
             = sum_list (map active_w (workers s)) + 1"
    using resume by (intro sum_list_update_add) simp_all
  have b: "sum_list (map crashed_w ((workers s)[i := Ready Map.empty]))
             = sum_list (map crashed_w (workers s))"
    using resume by (intro sum_list_update_same) simp_all
  show ?thesis using inv resume a b by (auto simp: pool_inv_def)
next
  case (collect res rest)
  show ?thesis using inv collect by (auto simp: pool_inv_def)
qed

lemma bag_add_result:
  assumes "additive f"
  shows "bag f (add_result r c data key) = bag f (r key) + (if c = key then f data else {#})"
proof (cases "c = key")
  case False
  then show ?thesis by (simp add: add_result_def split: option.splits prod.splits)
next
  case True
  show ?thesis
  proof (cases "r c")
    case None
    with True show ?thesis by (simp add: add_result_def bag_def)
  next
    case (Some v)
    obtain xs ys where v: "v = (xs, ys)" by (cases v)
    have "f (xs @ fst data, ys @ snd data) = f (xs, ys) + f (fst data, snd data)"
      using assms by (simp add: additive_def)
    with True Some v show ?thesis by (simp add: add_result_def bag_def)
  qed
qed

lemma bag_merge_report:
  assumes "additive f"
  shows "bag f (merge_report m res key) = bag f (m key) + bag f (res key)"
proof (cases "res key")
  case None
  then show ?thesis by (simp add: merge_report_def bag_def)
next
  case (Some v)
  obtain xs ys where v: "v = (xs, ys)" by (cases v)
  show ?thesis
  proof (cases "m key")
    case None
    with Some v show ?thesis by (simp add: merge_report_def bag_def)
  next
    case (Some v0)
    obtain xs0 ys0 where v0: "v0 = (xs0, ys0)" by (cases v0)
    have "f (xs0 @ xs, ys0 @ ys) = f (xs0, ys0) + f (xs, ys)"
      using assms by (simp add: additive_def)
    with Some \<open>res key = Some v\<close> v v0 show ?thesis by (simp add: merge_report_def bag_def)
  qed
qed

lemma crashes_step:
  assumes "pool_step conds n a s = Some s1"
  shows "crashes s \<le> crashes s1"
  using assms
proof (cases rule: pool_step_cases)
  case (take i r c d p q)
  have "sum_list (map crashed_w ((workers s)[i := Busy r c d p])) = sum_list (map crashed_w (workers s))"
    using take by (intro sum_list_update_same) simp_all
  with take show ?thesis by (simp add: crashes_def)
next
  case (idle i r q)
  have "sum_list (map crashed_w ((workers s)[i := Waiting])) = sum_list (map crashed_w (workers s))"
    using idle by (intro sum_list_update_same) simp_all
  with idle show ?thesis by (simp add: crashes_def)
next
  case (crash i r c d p e)
  have "sum_list (map crashed_w ((workers s)[i := Crashed])) = sum_list (map crashed_w (workers s)) + 1"
    using crash by (intro sum_list_update_add) simp_all
  with crash show ?thesis by (simp add: crashes_def)
next
  case (finish i r c d p data)
  have "sum_list (map crashed_w ((workers s)[i := Ready (add_result r c data)]))
             = sum_list (map crashed_w (workers s))"
    using finish by (intro sum_list_update_same) simp_all
  with finish show ?thesis by (simp add: crashes_def)
next
  case (resume i k)
  have "sum_list (map crashed_w ((workers s)[i := Ready Map.empty]))
             = sum_list (map crashed_w (workers s))"
    using resume by (intro sum_list_update_same) simp_all
  with resume show ?thesis by (simp add: crashes_def)
next
  case (collect res rest)
  then show ?thesis by (simp add: crashes_def)
qed

text \<open>A step that crashes no worker moves values around and neither adds nor drops one.\<close>

lemma stock_step:
  assumes add: "additive f" and step: "pool_step conds n a s = Some s1"
    and ok: "crashes s1 = 0"
  shows "stock conds f key s1 = stock conds f key s"
  using step
proof (cases rule: pool_step_cases)
  case (take i r c d p q)
  have "sum_list (map (held conds f key) ((workers s)[i := Busy r c d p]))
          = sum_list (map (held conds f key) (workers s)) + due conds f key (Work c d p)"
    using take by (intro sum_list_update_add) simp_all
  with take show ?thesis by (simp add: stock_def ac_simps)
next
  case (idle i r q)
  have "sum_list (map (held conds f key) ((workers s)[i := Waiting])) + bag f (r key)
          = sum_list (map (held conds f key) (workers s))"
    using idle by (intro sum_list_update_sub) simp_all
  then have "sum_list (map (held conds f key) (workers s))
          = sum_list (map (held conds f key) ((workers s)[i := Waiting])) + bag f (r key)"
    by simp
  with idle show ?thesis by (simp add: stock_def ac_simps)
next
  case (crash i r c d p e)
  have "sum_list (map crashed_w ((workers s)[i := Crashed])) = sum_list (map crashed_w (workers s)) + 1"
    using crash by (intro sum_list_update_add) simp_all
  with crash ok show ?thesis by (simp add: crashes_def)
next
  case (finish i r c d p data)
  have "sum_list (map (held conds f key) ((workers s)[i := Ready (add_result r c data)]))
          = sum_list (map (held conds f key) (workers s))"
    using finish by (intro sum_list_update_same) (auto simp: bag_add_result [OF add])
  with finish show ?thesis by (simp add: stock_def)
next
  case (resume i k)
  have "sum_list (map (held conds f key) ((workers s)[i := Ready Map.empty]))
          = sum_list (map (held conds f key) (workers s))"
    using resume by (intro sum_list_update_same) (simp_all add: bag_def)
  with resume show ?thesis by (simp add: stock_def)
next
  case (collect res rest)
  then show ?thesis by (simp add: stock_def bag_merge_report [OF add] ac_simps)
qed

text \<open>Runs.\<close>

lemma run_pool_inv: "pool_inv n s \<Longrightarrow> run conds n sched s = Some s1 \<Longrightarrow> pool_inv n s1"
proof (induction sched arbitrary: s)
  case Nil
  then show ?case by simp
next
  case (Cons a sched)
  from Cons.prems(2) obtain s2 where st: "pool_step conds n a s = Some s2"
    and rest: "run conds n sched s2 = Some s1"
    by (auto split: option.splits)
  from Cons.prems(1) st have "pool_inv n s2" by (rule pool_inv_step)
  then show ?case using rest by (rule Cons.IH)
qed

lemma run_crashes: "run conds n sched s = Some s1 \<Longrightarrow> crashes s \<le> crashes s1"
proof (induction sched arbitrary: s)
  case Nil
  then show ?case by simp
next
  case (Cons a sched)
  from Cons.prems obtain s2 where st: "pool_step conds n a s = Some s2"
    and rest: "run conds n sched s2 = Some s1"
    by (auto split: option.splits)
  from crashes_step [OF st] Cons.IH [OF rest] show ?case by simp
qed

lemma run_stock:
  "additive f \<Longrightarrow> run conds n sched s = Some s1 \<Longrightarrow> crashes s1 = 0 \<Longrightarrow>
     stock conds f key s1 = stock conds f key s"
proof (induction sched arbitrary: s)
  case Nil
  then show ?case by simp
next
  case (Cons a sched)
  from Cons.prems(2) obtain s2 where st: "pool_step conds n a s = Some s2"
    and rest: "run conds n sched s2 = Some s1"
    by (auto split: option.splits)
  have "crashes s2 = 0" using run_crashes [OF rest] Cons.prems(3) by simp
  with Cons.prems(1) st have "stock conds f key s2 = stock conds f key s"
    by (intro stock_step)
  moreover have "stock conds f key s1 = stock conds f key s2"
    using Cons.prems(1) rest Cons.prems(3) by (rule Cons.IH)
  ultimately show ?case by simp
qed

text \<open>The state in which \<^verbatim>\<open>wait_for_idle\<close> is entered.\<close>

lemma works_first_start: "works_first (map (\<lambda>(c, d, p). Work c d p) ts @ replicate n IdleCmd)"
proof (induction ts)
  case Nil
  show ?case by (cases n) (simp_all add: list_all_length)
next
  case (Cons t ts)
  then show ?case by (cases t) simp
qed

lemma idles_start: "idles (map (\<lambda>(c, d, p). Work c d p) ts @ replicate n IdleCmd) = n"
proof (induction ts)
  case Nil
  show ?case by (simp add: idles_def)
next
  case (Cons t ts)
  then show ?case by (cases t) (simp add: idles_def)
qed

lemma fresh_workers_count:
  "set ws \<subseteq> {Ready Map.empty, Waiting} \<Longrightarrow>
     sum_list (map active_w ws) + length (filter is_waiting ws) = length ws \<and>
     sum_list (map crashed_w ws) = 0 \<and> sum_list (map busy_w ws) = 0 \<and>
     sum_list (map (held conds f key) ws) = {#}"
proof (induction ws)
  case Nil
  show ?case by simp
next
  case (Cons w ws)
  then have "w = Ready Map.empty \<or> w = Waiting" by auto
  then show ?case using Cons by (auto simp: bag_def)
qed

lemma pool_inv_start:
  assumes "length ws = n" "set ws \<subseteq> {Ready Map.empty, Waiting}"
  shows "pool_inv n (sweep_start n ts ws)"
  using assms fresh_workers_count [OF assms(2)]
  by (simp add: pool_inv_def sweep_start_def works_first_start idles_start)

lemma crashes_start:
  assumes "set ws \<subseteq> {Ready Map.empty, Waiting}"
  shows "crashes (sweep_start n ts ws) = 0"
  using fresh_workers_count [OF assms] by (simp add: crashes_def sweep_start_def)

lemma due_start:
  "sum_list (map (due conds f key) (map (\<lambda>(c, d, p). Work c d p) ts @ replicate n IdleCmd))
     = sum_list (map (\<lambda>(c, d, p). due conds f key (Work c d p)) ts)"
proof (induction ts)
  case Nil
  show ?case by (induction n) simp_all
next
  case (Cons t ts)
  then show ?case by (cases t) simp
qed

lemma stock_start:
  assumes "set ws \<subseteq> {Ready Map.empty, Waiting}"
  shows "stock conds f key (sweep_start n ts ws)
           = sum_list (map (\<lambda>(c, d, p). due conds f key (Work c d p)) ts)"
proof -
  have h: "sum_list (map (held conds f key) ws) = {#}"
    using fresh_workers_count [OF assms, of conds f key] by blast
  have "stock conds f key (sweep_start n ts ws)
          = sum_list (map (held conds f key) ws)
            + sum_list (map (due conds f key)
                (map (\<lambda>(c, d, p). Work c d p) ts @ replicate n IdleCmd))"
    by (simp add: stock_def sweep_start_def bag_def)
  then show ?thesis by (simp only: h due_start) simp
qed

lemma outputs_x_due:
  "mset (outputs_x conds key ts)
     = sum_list (map (\<lambda>(c, d, p). due conds (\<lambda>data. mset (fst data)) key (Work c d p)) ts)"
  by (induction ts) (auto simp: outputs_x_def split: sum.splits)

lemma outputs_y_due:
  "mset (outputs_y conds key ts)
     = sum_list (map (\<lambda>(c, d, p). due conds (\<lambda>data. mset (snd data)) key (Work c d p)) ts)"
  by (induction ts) (auto simp: outputs_y_def split: sum.splits)

lemma additive_fst: "additive (\<lambda>data. mset (fst data))"
  by (simp add: additive_def)

lemma additive_snd: "additive (\<lambda>data. mset (snd data))"
  by (simp add: additive_def)

text \<open>A queue of \<^verbatim>\<open>'idle'\<close> commands only stays one.\<close>

lemma idle_only_step:
  assumes "list_all is_idle (task_queue s)" and "pool_step conds n a s = Some s1"
  shows "list_all is_idle (task_queue s1)"
  using assms(2)
proof (cases rule: pool_step_cases)
  case (take i r c d p q)
  with assms(1) show ?thesis by simp
next
  case (idle i r q)
  with assms(1) show ?thesis by simp
next
  case (crash i r c d p e)
  with assms(1) show ?thesis by simp
next
  case (finish i r c d p data)
  with assms(1) show ?thesis by simp
next
  case (resume i k)
  with assms(1) show ?thesis by simp
next
  case (collect res rest)
  with assms(1) show ?thesis by simp
qed

lemma run_idle_only:
  "list_all is_idle (task_queue s) \<Longrightarrow> run conds n sched s = Some s1 \<Longrightarrow>
     list_all is_idle (task_queue s1)"
proof (induction sched arbitrary: s)
  case Nil
  then show ?case by simp
next
  case (Cons a sched)
  from Cons.prems(2) obtain s2 where st: "pool_step conds n a s = Some s2"
    and rest: "run conds n sched s2 = Some s1"
    by (auto split: option.splits)
  from Cons.prems(1) st have "list_all is_idle (task_queue s2)" by (rule idle_only_step)
  then show ?case using rest by (rule Cons.IH)
qed

text \<open>The state in which \<^verbatim>\<open>wait_for_idle\<close> returns.\<close>

lemma all_idle_count: "list_all is_idle q \<Longrightarrow> idles q = length q"
  by (induction q) (simp_all add: idles_def)

lemma no_active_no_crashed:
  "sum_list (map active_w ws) = 0 \<Longrightarrow> sum_list (map crashed_w ws) = 0 \<Longrightarrow>
     list_all is_waiting ws \<and> sum_list (map (held conds f key) ws) = {#}"
proof (induction ws)
  case Nil
  show ?case by simp
next
  case (Cons w ws)
  then show ?case by (cases w) simp_all
qed

lemma pool_inv_done:
  assumes inv: "pool_inv n s" and fin: "idle_count s = n"
    and n: "0 < n \<or> list_all is_idle (task_queue s)"
  shows "task_queue s = []" "idle_queue s = []" "list_all is_waiting (workers s)"
    "crashes s = 0" "stock conds f key s = bag f (merged s key)" "resume_queue s = 0"
proof -
  from inv have t: "idle_count s + length (idle_queue s) + idles (task_queue s) = n"
    unfolding pool_inv_def by blast
  from t fin have z: "length (idle_queue s) = 0" "idles (task_queue s) = 0"
    by linarith+
  show iq: "idle_queue s = []" using z(1) by simp
  from inv have "idles (task_queue s) = n \<or> list_all is_idle (task_queue s)"
    unfolding pool_inv_def by blast
  with z(2) n have "list_all is_idle (task_queue s)" by auto
  then have "length (task_queue s) = 0" using all_idle_count z(2) by fastforce
  then show tq: "task_queue s = []" by simp
  from inv have e: "idles (task_queue s)
      = sum_list (map active_w (workers s)) + resume_queue s + sum_list (map crashed_w (workers s))"
    unfolding pool_inv_def by blast
  from e z(2) have a: "sum_list (map active_w (workers s)) = 0" by linarith
  from e z(2) have c: "sum_list (map crashed_w (workers s)) = 0" by linarith
  from e z(2) show "resume_queue s = 0" by linarith
  show "crashes s = 0" using c by (simp add: crashes_def)
  from no_active_no_crashed [OF a c, of conds f key]
  show "list_all is_waiting (workers s)" by simp
  from no_active_no_crashed [OF a c, of conds f key]
  show "stock conds f key s = bag f (merged s key)"
    by (simp add: stock_def iq tq)
qed

lemma pool_measure_step:
  assumes "pool_step conds n a s = Some s1"
  shows "pool_measure s1 < pool_measure s"
  using assms
proof (cases rule: pool_step_cases)
  case (take i r c d p q)
  have "sum_list (map busy_w ((workers s)[i := Busy r c d p])) = sum_list (map busy_w (workers s)) + 1"
    using take by (intro sum_list_update_add) simp_all
  with take show ?thesis by (simp add: pool_measure_def)
next
  case (idle i r q)
  have "sum_list (map busy_w ((workers s)[i := Waiting])) = sum_list (map busy_w (workers s))"
    using idle by (intro sum_list_update_same) simp_all
  with idle show ?thesis by (simp add: pool_measure_def)
next
  case (crash i r c d p e)
  have "sum_list (map busy_w ((workers s)[i := Crashed])) + 1 = sum_list (map busy_w (workers s))"
    using crash by (intro sum_list_update_sub) simp_all
  with crash show ?thesis by (simp add: pool_measure_def)
next
  case (finish i r c d p data)
  have "sum_list (map busy_w ((workers s)[i := Ready (add_result r c data)])) + 1
          = sum_list (map busy_w (workers s))"
    using finish by (intro sum_list_update_sub) simp_all
  with finish show ?thesis by (simp add: pool_measure_def)
next
  case (resume i k)
  have "sum_list (map busy_w ((workers s)[i := Ready Map.empty])) = sum_list (map busy_w (workers s))"
    using resume by (intro sum_list_update_same) simp_all
  with resume show ?thesis by (simp add: pool_measure_def)
next
  case (collect res rest)
  then show ?thesis by (simp add: pool_measure_def)
qed

lemma run_pool_measure: "run conds n sched s = Some s1 \<Longrightarrow> length sched + pool_measure s1 \<le> pool_measure s"
proof (induction sched arbitrary: s)
  case Nil
  then show ?case by simp
next
  case (Cons a sched)
  from Cons.prems obtain s2 where st: "pool_step conds n a s = Some s2"
    and rest: "run conds n sched s2 = Some s1"
    by (auto split: option.splits)
  from pool_measure_step [OF st] Cons.IH [OF rest] show ?case by simp
qed

lemma pool_measure_start:
  assumes "length ws = n" "set ws \<subseteq> {Ready Map.empty, Waiting}"
  shows "pool_measure (sweep_start n ts ws) \<le> 2 * length ts + 3 * n"
proof -
  have w: "length (filter is_waiting ws) \<le> n"
    using assms(1) length_filter_le [of is_waiting ws] by simp
  have b: "sum_list (map busy_w ws) = 0"
    using fresh_workers_count [OF assms(2), of undefined undefined undefined] by blast
  have "pool_measure (sweep_start n ts ws)
          = 2 * (length ts + n) + sum_list (map busy_w ws) + length (filter is_waiting ws)"
    by (simp add: pool_measure_def sweep_start_def)
  then show ?thesis using w by (simp only: b) simp
qed

lemma list_all_update: "list_all P xs \<Longrightarrow> P w \<Longrightarrow> list_all P (xs[i := w])"
  using set_update_subset_insert [of xs i w] by (auto simp: list_all_iff)

lemma tasks_ok_step:
  assumes ok: "tasks_ok conds s" and step: "pool_step conds n a s = Some s1"
  shows "tasks_ok conds s1"
  using step
proof (cases rule: pool_step_cases)
  case (take i r c d p q)
  with ok show ?thesis by (simp add: tasks_ok_def list_all_update)
next
  case (idle i r q)
  with ok show ?thesis by (simp add: tasks_ok_def list_all_update)
next
  case (crash i r c d p e)
  from ok crash(2,3) have "worker_ok conds (Busy r c d p)"
    by (metis list_all_length tasks_ok_def)
  with crash(4) show ?thesis by simp
next
  case (finish i r c d p data)
  with ok show ?thesis by (simp add: tasks_ok_def list_all_update)
next
  case (resume i k)
  with ok show ?thesis by (simp add: tasks_ok_def list_all_update)
next
  case (collect res rest)
  with ok show ?thesis by (simp add: tasks_ok_def)
qed

lemma run_tasks_ok: "tasks_ok conds s \<Longrightarrow> run conds n sched s = Some s1 \<Longrightarrow> tasks_ok conds s1"
proof (induction sched arbitrary: s)
  case Nil
  then show ?case by simp
next
  case (Cons a sched)
  from Cons.prems(2) obtain s2 where st: "pool_step conds n a s = Some s2"
    and rest: "run conds n sched s2 = Some s1"
    by (auto split: option.splits)
  from Cons.prems(1) st have "tasks_ok conds s2" by (rule tasks_ok_step)
  then show ?case using rest by (rule Cons.IH)
qed

lemma tasks_ok_start:
  assumes "list_all (\<lambda>(c, d, p). \<not> isl (conds c d p)) ts"
    and "set ws \<subseteq> {Ready Map.empty, Waiting}"
  shows "tasks_ok conds (sweep_start n ts ws)"
proof -
  have a: "list_all (task_ok conds) (map (\<lambda>(c, d, p). Work c d p) ts)"
    using assms(1) by (induction ts) auto
  have b: "list_all (task_ok conds) (replicate n IdleCmd)" by (simp add: list_all_length)
  have c: "list_all (worker_ok conds) ws"
    using assms(2) by (induction ws) auto
  show ?thesis using a b c by (simp add: tasks_ok_def sweep_start_def)
qed

lemma positive_summand:
  fixes g :: "'a \<Rightarrow> nat"
  shows "0 < sum_list (map g xs) \<Longrightarrow> \<exists>i < length xs. 0 < g (xs ! i)"
proof (induction xs)
  case Nil
  then show ?case by simp
next
  case (Cons a xs)
  show ?case
  proof (cases "0 < g a")
    case True
    then show ?thesis by (intro exI [of _ 0]) simp
  next
    case False
    with Cons.prems have "0 < sum_list (map g xs)" by simp
    from Cons.IH [OF this] obtain i where "i < length xs" "0 < g (xs ! i)" by blast
    then show ?thesis by (intro exI [of _ "Suc i"]) simp
  qed
qed

text \<open>As long as the coordinator waits, somebody can move.\<close>

lemma pool_progress:
  assumes inv: "pool_inv n s" and ok: "tasks_ok conds s" and wait: "idle_count s \<noteq> n"
  shows "\<exists>a s1. pool_step conds n a s = Some s1"
proof (cases "idle_queue s")
  case (Cons res rest)
  with wait have "pool_step conds n Coordinator s \<noteq> None"
    by (simp add: pool_step_def coordinator_step_def)
  then show ?thesis by blast
next
  case Nil
  from inv have len: "length (workers s) = n"
    and t: "idle_count s + length (idle_queue s) + idles (task_queue s) = n"
    and e: "idles (task_queue s)
      = sum_list (map active_w (workers s)) + resume_queue s + sum_list (map crashed_w (workers s))"
    unfolding pool_inv_def by blast+
  from t wait Nil have pos: "0 < idles (task_queue s)" by simp
  then have qne: "task_queue s \<noteq> []" by (auto simp: idles_def)
  have le: "idles (task_queue s) \<le> n" using t by simp
  have okw: "\<And>i. i < length (workers s) \<Longrightarrow> worker_ok conds (workers s ! i)"
    using ok by (simp add: tasks_ok_def list_all_length)
  have nocrash: "sum_list (map crashed_w (workers s)) = 0"
  proof (rule ccontr)
    assume "sum_list (map crashed_w (workers s)) \<noteq> 0"
    then have "0 < sum_list (map crashed_w (workers s))" by linarith
    from positive_summand [OF this] obtain i where i: "i < length (workers s)"
      and c: "0 < crashed_w (workers s ! i)" by blast
    from c have "workers s ! i = Crashed" by (cases "workers s ! i") simp_all
    with okw [OF i] show False by simp
  qed
  show ?thesis
  proof (cases "0 < sum_list (map active_w (workers s))")
    case True
    from positive_summand [OF this] obtain i where i: "i < length (workers s)"
      and a: "0 < active_w (workers s ! i)" by blast
    have "worker_step conds i s \<noteq> None"
    proof (cases "workers s ! i")
      case (Ready r)
      with i qne show ?thesis
        by (simp add: worker_step_def split: list.splits task.splits)
    next
      case (Busy r c d p)
      with i show ?thesis by (simp add: worker_step_def split: sum.splits)
    next
      case Waiting
      with a show ?thesis by simp
    next
      case Crashed
      with a show ?thesis by simp
    qed
    then have "pool_step conds n (Worker i) s \<noteq> None" by (simp add: pool_step_def)
    then show ?thesis by blast
  next
    case False
    then have noact: "sum_list (map active_w (workers s)) = 0" by linarith
    from e pos noact nocrash have tok: "0 < resume_queue s" by linarith
    from pos le len have i: "0 < length (workers s)" by simp
    from no_active_no_crashed [OF noact nocrash, of undefined undefined undefined]
    have "list_all is_waiting (workers s)" by blast
    with i have "is_waiting (workers s ! 0)" by (simp add: list_all_length)
    then have w: "workers s ! 0 = Waiting" by (cases "workers s ! 0") simp_all
    from tok obtain k where "resume_queue s = Suc k" by (cases "resume_queue s") simp_all
    with i w have "worker_step conds 0 s \<noteq> None" by (simp add: worker_step_def)
    then have "pool_step conds n (Worker 0) s \<noteq> None" by (simp add: pool_step_def)
    then show ?thesis by blast
  qed
qed

text \<open>From every state some schedule leads to the return of \<^verbatim>\<open>wait_for_idle\<close>.\<close>

lemma run_completes:
  "pool_inv n s \<Longrightarrow> tasks_ok conds s \<Longrightarrow>
     \<exists>sched s1. run conds n sched s = Some s1 \<and> idle_count s1 = n"
proof (induction s rule: measure_induct_rule [where f = pool_measure])
  case (less s)
  show ?case
  proof (cases "idle_count s = n")
    case True
    then have "run conds n [] s = Some s \<and> idle_count s = n" by simp
    then show ?thesis by blast
  next
    case False
    from pool_progress [OF less.prems False] obtain a s2
      where st: "pool_step conds n a s = Some s2" by blast
    have "pool_measure s2 < pool_measure s" using st by (rule pool_measure_step)
    moreover have "pool_inv n s2" using less.prems(1) st by (rule pool_inv_step)
    moreover have "tasks_ok conds s2" using less.prems(2) st by (rule tasks_ok_step)
    ultimately obtain sched s1 where "run conds n sched s2 = Some s1" "idle_count s1 = n"
      using less.IH by blast
    with st have "run conds n (a # sched) s = Some s1 \<and> idle_count s1 = n" by simp
    then show ?thesis by blast
  qed
qed

text \<open>
  Claim C6. A sweep step with \<open>n\<close> workers and any tasks (at least one worker when
  there are tasks), under any schedule of the workers and the coordinator. The coordinator never counts more than \<open>n\<close>
  reports, and no schedule is longer than \<open>2 * length ts + 3 * n\<close> steps. When the count
  reaches \<open>n\<close> (\<^verbatim>\<open>wait_for_idle\<close> returns) the three queues are empty, every
  worker has reported and waits for its resume, and for every condition the
  merged x list and the merged y list hold exactly the outputs of the step's tasks for that
  condition: the same values with the same multiplicities, whichever worker took which
  task. When no task raises, the pool can always move while the coordinator waits, and
  the run can be completed to a return of \<^verbatim>\<open>wait_for_idle\<close>.
\<close>

theorem wait_for_idle_round_trip:
  assumes n: "0 < n \<or> ts = []" and len: "length ws = n"
    and fresh: "set ws \<subseteq> {Ready Map.empty, Waiting}"
    and run: "run conds n sched (sweep_start n ts ws) = Some s"
  shows "idle_count s \<le> n
       \<and> length sched \<le> 2 * length ts + 3 * n
       \<and> (idle_count s = n \<longrightarrow>
            task_queue s = [] \<and> idle_queue s = [] \<and> resume_queue s = 0
          \<and> list_all is_waiting (workers s)
          \<and> (\<forall>key. mset (merged_x s key) = mset (outputs_x conds key ts)
                 \<and> mset (merged_y s key) = mset (outputs_y conds key ts)))
       \<and> (list_all (\<lambda>(c, d, p). \<not> isl (conds c d p)) ts \<and> idle_count s \<noteq> n \<longrightarrow>
            (\<exists>a s1. pool_step conds n a s = Some s1))
       \<and> (list_all (\<lambda>(c, d, p). \<not> isl (conds c d p)) ts \<longrightarrow>
            (\<exists>rest s1. run conds n rest s = Some s1 \<and> idle_count s1 = n))"
proof -
  let ?s0 = "sweep_start n ts ws"
  have inv: "pool_inv n s" using pool_inv_start [OF len fresh] run by (rule run_pool_inv)
  have cnt: "idle_count s \<le> n" using inv by (simp add: pool_inv_def)
  have bound: "length sched \<le> 2 * length ts + 3 * n"
    using run_pool_measure [OF run] pool_measure_start [OF len fresh, of ts] by simp
  have safe: "idle_count s = n \<longrightarrow>
            task_queue s = [] \<and> idle_queue s = [] \<and> resume_queue s = 0
          \<and> list_all is_waiting (workers s)
          \<and> (\<forall>key. mset (merged_x s key) = mset (outputs_x conds key ts)
                 \<and> mset (merged_y s key) = mset (outputs_y conds key ts))"
  proof
    assume fin: "idle_count s = n"
    have "0 < n \<or> list_all is_idle (task_queue s)"
    proof (cases "0 < n")
      case True
      then show ?thesis by simp
    next
      case False
      with n have "ts = []" by simp
      then have "list_all is_idle (task_queue ?s0)"
        by (simp add: sweep_start_def list_all_length)
      then have "list_all is_idle (task_queue s)" using run by (rule run_idle_only)
      then show ?thesis by simp
    qed
    note d = pool_inv_done [OF inv fin this]
    have x: "mset (merged_x s key) = mset (outputs_x conds key ts)" for key
    proof -
      let ?f = "\<lambda>data :: real list \<times> real list. mset (fst data)"
      have "bag ?f (merged s key) = stock conds ?f key s" using d(5) [of conds ?f key] by simp
      also have "\<dots> = stock conds ?f key ?s0" using additive_fst run d(4) by (rule run_stock)
      also have "\<dots> = mset (outputs_x conds key ts)"
        by (simp only: stock_start [OF fresh] outputs_x_due)
      finally show ?thesis by (auto simp: merged_x_def bag_def split: option.splits)
    qed
    have y: "mset (merged_y s key) = mset (outputs_y conds key ts)" for key
    proof -
      let ?f = "\<lambda>data :: real list \<times> real list. mset (snd data)"
      have "bag ?f (merged s key) = stock conds ?f key s" using d(5) [of conds ?f key] by simp
      also have "\<dots> = stock conds ?f key ?s0" using additive_snd run d(4) by (rule run_stock)
      also have "\<dots> = mset (outputs_y conds key ts)"
        by (simp only: stock_start [OF fresh] outputs_y_due)
      finally show ?thesis by (auto simp: merged_y_def bag_def split: option.splits)
    qed
    show "task_queue s = [] \<and> idle_queue s = [] \<and> resume_queue s = 0
          \<and> list_all is_waiting (workers s)
          \<and> (\<forall>key. mset (merged_x s key) = mset (outputs_x conds key ts)
                 \<and> mset (merged_y s key) = mset (outputs_y conds key ts))"
      using d(1,2,3,6) x y by blast
  qed
  have live: "list_all (\<lambda>(c, d, p). \<not> isl (conds c d p)) ts \<and> idle_count s \<noteq> n \<longrightarrow>
            (\<exists>a s1. pool_step conds n a s = Some s1)"
  proof (intro impI, elim conjE)
    assume ok: "list_all (\<lambda>(c, d, p). \<not> isl (conds c d p)) ts" and wait: "idle_count s \<noteq> n"
    have "tasks_ok conds s" using tasks_ok_start [OF ok fresh] run by (rule run_tasks_ok)
    with inv show "\<exists>a s1. pool_step conds n a s = Some s1" using wait by (rule pool_progress)
  qed
  have compl: "list_all (\<lambda>(c, d, p). \<not> isl (conds c d p)) ts \<longrightarrow>
            (\<exists>rest s1. run conds n rest s = Some s1 \<and> idle_count s1 = n)"
  proof
    assume ok: "list_all (\<lambda>(c, d, p). \<not> isl (conds c d p)) ts"
    have "tasks_ok conds s" using tasks_ok_start [OF ok fresh] run by (rule run_tasks_ok)
    with inv show "\<exists>rest s1. run conds n rest s = Some s1 \<and> idle_count s1 = n"
      by (rule run_completes)
  qed
  show ?thesis using cnt bound safe live compl by blast
qed

lemma demo_run:
  "\<exists>s. run demo_conds 2 demo_schedule (sweep_start 2 demo_tasks [Ready Map.empty, Ready Map.empty])
          = Some s
       \<and> idle_count s = 2 \<and> merged_x s 0 = [2, 3, 1] \<and> merged_y s 0 = [7, 7, 7]"
  by (simp add: demo_schedule_def demo_tasks_def demo_conds_def sweep_start_def pool_step_def
      worker_step_def coordinator_step_def add_result_def merge_report_def merged_x_def
      merged_y_def mk_point_def numeral_2_eq_2)

theorem wait_for_idle_round_trip_witness:
  "(0::nat) < 2 \<and> length [Ready Map.empty, Ready Map.empty] = 2
   \<and> set [Ready Map.empty, Ready Map.empty] \<subseteq> {Ready Map.empty, Waiting}
   \<and> (\<exists>s. run demo_conds 2 demo_schedule
              (sweep_start 2 demo_tasks [Ready Map.empty, Ready Map.empty]) = Some s
          \<and> idle_count s = 2 \<and> merged_x s 0 = [2, 3, 1]
          \<and> task_queue s = [] \<and> idle_queue s = []
          \<and> mset (merged_x s 0) = mset (outputs_x demo_conds 0 demo_tasks))
   \<and> outputs_x demo_conds 0 demo_tasks = [1, 2, 3]"
proof -
  let ?ws = "[Ready Map.empty, Ready Map.empty]"
  have a: "(0::nat) < 2" by simp
  then have a': "(0::nat) < 2 \<or> demo_tasks = []" by simp
  have b: "length ?ws = 2" by simp
  have c: "set ?ws \<subseteq> {Ready Map.empty, Waiting}" by simp
  from demo_run obtain s
    where r: "run demo_conds 2 demo_schedule (sweep_start 2 demo_tasks ?ws) = Some s"
      and d: "idle_count s = 2" "merged_x s 0 = [2, 3, 1]"
    by blast
  from wait_for_idle_round_trip [OF a' b c r] d(1)
  have e: "task_queue s = []" "idle_queue s = []"
    "mset (merged_x s 0) = mset (outputs_x demo_conds 0 demo_tasks)"
    by blast+
  have f: "outputs_x demo_conds 0 demo_tasks = [1, 2, 3]"
    by (simp add: outputs_x_def demo_tasks_def demo_conds_def)
  show ?thesis using a b c r d e f by blast
qed

end
